theory Spec2Isabelle
  imports Complex_Main "HOL-Library.Monad_Syntax"
begin

section \<open>The cooperative scheduler and the expiration buckets\<close>

text \<open>
  A shallow embedding of the scheduler module (\<^verbatim>\<open>src/unnamed/part_000\<close>) and of the
  bucketing arithmetic of \<^verbatim>\<open>ReactFiberExpirationTime.js\<close>.

  \<^item> The module's global variables are the fields of the record \<open>sched\<close>; every
    function takes the state and returns the new one.
  \<^item> Callback nodes are JavaScript objects that are shared and mutated through their
    \<^verbatim>\<open>next\<close> and \<^verbatim>\<open>previous\<close> fields, so they live in an explicit store: \<open>heap\<close>
    maps an object identity (a number) to the node's fields, and \<open>allocated\<close> counts
    the objects created so far, which gives every object literal a fresh identity.
    \<^verbatim>\<open>null\<close> is \<open>None\<close>.
  \<^item> Times, timeouts and priority levels are JavaScript numbers; they are modelled
    as integers (milliseconds), the expiration arithmetic of the reconciler as rationals.
  \<^item> A function returns \<open>None\<close> when the source would read a field of \<^verbatim>\<open>null\<close>
    (a TypeError, which the well-formed queue never raises) or would loop forever.
  \<^item> An exception thrown by a callback is the completion \<open>Thrown\<close>; a
    \<^verbatim>\<open>try ... finally\<close> runs its cleanup on both completions and passes the
    completion on.
\<close>

subsection \<open>Constants\<close>

definition ImmediatePriority :: int where "ImmediatePriority = 1"
definition UserBlockingPriority :: int where "UserBlockingPriority = 2"
definition NormalPriority :: int where "NormalPriority = 3"
definition LowPriority :: int where "LowPriority = 4"
definition IdlePriority :: int where "IdlePriority = 5"

definition maxSigned31BitInt :: int where "maxSigned31BitInt = 1073741823"

definition IMMEDIATE_PRIORITY_TIMEOUT :: int where "IMMEDIATE_PRIORITY_TIMEOUT = - 1"
definition USER_BLOCKING_PRIORITY :: int where "USER_BLOCKING_PRIORITY = 250"
definition NORMAL_PRIORITY_TIMEOUT :: int where "NORMAL_PRIORITY_TIMEOUT = 5000"
definition LOW_PRIORITY_TIMEOUT :: int where "LOW_PRIORITY_TIMEOUT = 10000"
definition IDLE_PRIORITY :: int where "IDLE_PRIORITY = maxSigned31BitInt"

subsection \<open>Callback nodes and the scheduler state\<close>

type_synonym ref = nat

text \<open>
  A node of the circular doubly linked list. \<open>callback\<close> is the identity of the
  callback function; \<open>nxt\<close> is the field \<^verbatim>\<open>next\<close> (a keyword of the proof language).
\<close>

record callbackNode =
  callback :: nat
  priorityLevel :: int
  expirationTime :: int
  nxt :: "ref option"
  previous :: "ref option"

text \<open>
  The module state. The first group is the module's variables. The flag
  \<open>enableSchedulerDebugging\<close> is imported from \<^verbatim>\<open>./SchedulerFeatureFlags\<close>, which is
  not part of the sources at hand, so it is a field that no function writes.

  The host functions \<^verbatim>\<open>requestHostCallback\<close>, \<^verbatim>\<open>cancelHostCallback\<close>,
  \<^verbatim>\<open>shouldYieldToHost\<close> and \<^verbatim>\<open>getCurrentTime\<close> are chosen when the module loads
  (injected, timer based or frame based). They are modelled by their contract:
  \<open>hostCallback\<close> is the pending request with its absolute timeout, the \<open>k\<close>-th
  reading of the clock is \<open>clock k\<close>, and the \<open>k\<close>-th answer of the host to
  \<^verbatim>\<open>shouldYieldToHost\<close> is \<open>yieldAnswers k\<close>, for arbitrary sequences.

  \<open>executed\<close> is a ghost log: the nodes whose callbacks have been invoked, in order.
\<close>

record sched =
  heap :: "ref \<Rightarrow> callbackNode"
  allocated :: nat
  firstCallbackNode :: "ref option"
  currentDidTimeout :: bool
  isSchedulerPaused :: bool
  currentPriorityLevel :: int
  currentEventStartTime :: int
  currentExpirationTime :: int
  isExecutingCallback :: bool
  isHostCallbackScheduled :: bool
  enableSchedulerDebugging :: bool
  hostCallback :: "int option"
  clock :: "nat \<Rightarrow> int"
  clockReads :: nat
  yieldAnswers :: "nat \<Rightarrow> bool"
  yieldChecks :: nat
  executed :: "ref list"

datatype 'a completion = Normal 'a | Thrown

text \<open>
  What running a callback does: it may change the scheduler state through the
  module's functions, and it returns a continuation (\<open>Normal (Some c)\<close>), returns
  anything that is not a function (\<open>Normal None\<close>), or throws.
\<close>

type_synonym executor = "nat \<Rightarrow> sched \<Rightarrow> (nat option completion \<times> sched) option"

definition setNext :: "(ref \<Rightarrow> callbackNode) \<Rightarrow> ref \<Rightarrow> ref option \<Rightarrow> ref \<Rightarrow> callbackNode" where
  "setNext h r v = h(r := (h r)\<lparr>nxt := v\<rparr>)"

definition setPrevious :: "(ref \<Rightarrow> callbackNode) \<Rightarrow> ref \<Rightarrow> ref option \<Rightarrow> ref \<Rightarrow> callbackNode" where
  "setPrevious h r v = h(r := (h r)\<lparr>previous := v\<rparr>)"

text \<open>An object literal \<^verbatim>\<open>{callback, priorityLevel, expirationTime, next: null, previous: null}\<close>.\<close>

definition newCallbackNode :: "nat \<Rightarrow> int \<Rightarrow> int \<Rightarrow> sched \<Rightarrow> ref \<times> sched" where
  "newCallbackNode cb p e s =
     (allocated s,
      s\<lparr>heap := (heap s)(allocated s :=
            \<lparr>callback = cb, priorityLevel = p, expirationTime = e,
             nxt = None, previous = None\<rparr>),
        allocated := Suc (allocated s)\<rparr>)"

subsection \<open>The host\<close>

definition getCurrentTime :: "sched \<Rightarrow> int \<times> sched" where
  "getCurrentTime s = (clock s (clockReads s), s\<lparr>clockReads := Suc (clockReads s)\<rparr>)"

definition shouldYieldToHost :: "sched \<Rightarrow> bool \<times> sched" where
  "shouldYieldToHost s = (yieldAnswers s (yieldChecks s), s\<lparr>yieldChecks := Suc (yieldChecks s)\<rparr>)"

definition requestHostCallback :: "int \<Rightarrow> sched \<Rightarrow> sched" where
  "requestHostCallback absoluteTimeout s = s\<lparr>hostCallback := Some absoluteTimeout\<rparr>"

definition cancelHostCallback :: "sched \<Rightarrow> sched" where
  "cancelHostCallback s = s\<lparr>hostCallback := None\<rparr>"

subsection \<open>Scheduling\<close>

definition ensureHostCallbackIsScheduled :: "sched \<Rightarrow> sched option" where
  "ensureHostCallbackIsScheduled s =
     (if isExecutingCallback s then Some s
      else case firstCallbackNode s of
        None \<Rightarrow> None
      | Some f \<Rightarrow>
          Some (requestHostCallback (expirationTime (heap s f))
            (if \<not> isHostCallbackScheduled s then s\<lparr>isHostCallbackScheduled := True\<rparr>
             else cancelHostCallback s)))"

text \<open>
  The search loops of \<^verbatim>\<open>unstable_scheduleCallback\<close> and \<^verbatim>\<open>flushFirstCallback\<close>:
  \<^verbatim>\<open>do { if (stop(node.expirationTime)) { found = node; break; } node = node.next; }
  while (node !== firstCallbackNode)\<close>. The two loops differ in the test only
  (\<^verbatim>\<open>>\<close> against \<^verbatim>\<open>>=\<close>), which is the parameter \<open>stop\<close>. The result is
  \<open>Some None\<close> when the loop ends without a node.
\<close>

partial_function (option) findNode ::
  "(ref \<Rightarrow> callbackNode) \<Rightarrow> (int \<Rightarrow> bool) \<Rightarrow> ref \<Rightarrow> ref \<Rightarrow> ref option option" where
  "findNode h stop first node =
     (if stop (expirationTime (h node)) then Some (Some node)
      else case nxt (h node) of
        None \<Rightarrow> None
      | Some n \<Rightarrow> if n \<noteq> first then findNode h stop first n else Some None)"

text \<open>
  The end of both insertions: with \<open>found\<close> the result of the search,
  \<^verbatim>\<open>if (next === null) next = firstCallbackNode;
  else if (next === firstCallbackNode) { firstCallbackNode = newNode; ensureHostCallbackIsScheduled(); }
  var previous = next.previous; previous.next = next.previous = newNode;
  newNode.next = next; newNode.previous = previous;\<close>
\<close>

definition linkBefore :: "ref \<Rightarrow> ref \<Rightarrow> ref option \<Rightarrow> sched \<Rightarrow> sched option" where
  "linkBefore newNode first found s =
     do {
       (next, s1) \<leftarrow>
         (case found of
            None \<Rightarrow> Some (first, s)
          | Some n \<Rightarrow>
              if n = first
              then do {
                s' \<leftarrow> ensureHostCallbackIsScheduled (s\<lparr>firstCallbackNode := Some newNode\<rparr>);
                Some (n, s')
              }
              else Some (n, s));
       prev \<leftarrow> previous (heap s1 next);
       let h1 = setPrevious (heap s1) next (Some newNode);
           h2 = setNext h1 prev (Some newNode);
           h3 = setNext h2 newNode (Some next);
           h4 = setPrevious h3 newNode (Some prev)
       in Some (s1\<lparr>heap := h4\<rparr>)
     }"

text \<open>The \<^verbatim>\<open>switch (currentPriorityLevel)\<close> of \<^verbatim>\<open>unstable_scheduleCallback\<close>.\<close>

definition priorityTimeout :: "int \<Rightarrow> int" where
  "priorityTimeout p =
     (if p = ImmediatePriority then IMMEDIATE_PRIORITY_TIMEOUT
      else if p = UserBlockingPriority then USER_BLOCKING_PRIORITY
      else if p = IdlePriority then IDLE_PRIORITY
      else if p = LowPriority then LOW_PRIORITY_TIMEOUT
      else NORMAL_PRIORITY_TIMEOUT)"

text \<open>
  \<^verbatim>\<open>unstable_scheduleCallback(callback, deprecated_options)\<close>. The second argument is
  \<open>Some t\<close> when \<^verbatim>\<open>deprecated_options\<close> is an object whose \<^verbatim>\<open>timeout\<close> is the number
  \<open>t\<close>, and \<open>None\<close> otherwise. The result is the new node, the handle.
\<close>

definition scheduleStartTime :: "sched \<Rightarrow> int \<times> sched" where
  "scheduleStartTime s =
     (if currentEventStartTime s \<noteq> - 1 then (currentEventStartTime s, s)
      else getCurrentTime s)"

definition unstable_scheduleCallback ::
  "nat \<Rightarrow> int option \<Rightarrow> sched \<Rightarrow> (ref \<times> sched) option" where
  "unstable_scheduleCallback cb deprecated_options s =
     (case scheduleStartTime s of (startTime, s1) \<Rightarrow>
        let e = (case deprecated_options of
                   Some timeout \<Rightarrow> startTime + timeout
                 | None \<Rightarrow> startTime + priorityTimeout (currentPriorityLevel s1))
        in case newCallbackNode cb (currentPriorityLevel s1) e s1 of (newNode, s2) \<Rightarrow>
          (case firstCallbackNode s2 of
             None \<Rightarrow>
               do {
                 s3 \<leftarrow> ensureHostCallbackIsScheduled
                   (s2\<lparr>firstCallbackNode := Some newNode,
                      heap := setPrevious (setNext (heap s2) newNode (Some newNode))
                                newNode (Some newNode)\<rparr>);
                 Some (newNode, s3)
               }
           | Some first \<Rightarrow>
               do {
                 found \<leftarrow> findNode (heap s2) (\<lambda>x. x > e) first first;
                 s3 \<leftarrow> linkBefore newNode first found s2;
                 Some (newNode, s3)
               }))"

subsection \<open>Running the first callback\<close>

text \<open>
  The first part of \<^verbatim>\<open>flushFirstCallback\<close>: the first node is taken out of the list
  and its links are cleared, before its callback is called.
\<close>

definition unlinkFirst :: "sched \<Rightarrow> (ref \<times> sched) option" where
  "unlinkFirst s =
     do {
       flushedNode \<leftarrow> firstCallbackNode s;
       next \<leftarrow> nxt (heap s flushedNode);
       s1 \<leftarrow>
         (if flushedNode = next then Some (s\<lparr>firstCallbackNode := None\<rparr>)
          else do {
            lastCallbackNode \<leftarrow> previous (heap s flushedNode);
            let h1 = setNext (heap s) lastCallbackNode (Some next);
                h2 = setPrevious h1 next (Some lastCallbackNode)
            in Some (s\<lparr>firstCallbackNode := Some next, heap := h2\<rparr>)
          });
       Some (flushedNode,
         s1\<lparr>heap := setPrevious (setNext (heap s1) flushedNode None) flushedNode None\<rparr>)
     }"

text \<open>
  The second part: the call of the callback between the assignments of
  \<^verbatim>\<open>currentPriorityLevel\<close> and \<^verbatim>\<open>currentExpirationTime\<close> and the \<^verbatim>\<open>finally\<close> block
  that restores them. \<open>callbackEntry\<close> is the state in which the callback starts.
\<close>

definition callbackEntry :: "ref \<Rightarrow> sched \<Rightarrow> sched" where
  "callbackEntry flushedNode s =
     s\<lparr>currentPriorityLevel := priorityLevel (heap s flushedNode),
       currentExpirationTime := expirationTime (heap s flushedNode),
       executed := executed s @ [flushedNode]\<rparr>"

definition callCallback ::
  "executor \<Rightarrow> ref \<Rightarrow> sched \<Rightarrow> (nat option completion \<times> sched) option" where
  "callCallback exec flushedNode s =
     (let previousPriorityLevel = currentPriorityLevel s;
          previousExpirationTime = currentExpirationTime s
      in do {
        (r, s1) \<leftarrow> exec (callback (heap s flushedNode)) (callbackEntry flushedNode s);
        Some (r, s1\<lparr>currentPriorityLevel := previousPriorityLevel,
                    currentExpirationTime := previousExpirationTime\<rparr>)
      })"

text \<open>
  The third part: a continuation is put into the list as a new node with the
  priority and expiration of the node that has just run.
\<close>

definition insertContinuation :: "nat \<Rightarrow> int \<Rightarrow> int \<Rightarrow> sched \<Rightarrow> sched option" where
  "insertContinuation continuationCallback p e s =
     (case newCallbackNode continuationCallback p e s of (continuationNode, s1) \<Rightarrow>
        (case firstCallbackNode s1 of
           None \<Rightarrow>
             Some (s1\<lparr>firstCallbackNode := Some continuationNode,
                      heap := setPrevious (setNext (heap s1) continuationNode (Some continuationNode))
                                continuationNode (Some continuationNode)\<rparr>)
         | Some first \<Rightarrow>
             do {
               found \<leftarrow> findNode (heap s1) (\<lambda>x. x \<ge> e) first first;
               linkBefore continuationNode first found s1
             }))"

definition flushFirstCallback :: "executor \<Rightarrow> sched \<Rightarrow> (unit completion \<times> sched) option" where
  "flushFirstCallback exec s =
     do {
       (flushedNode, s1) \<leftarrow> unlinkFirst s;
       (r, s2) \<leftarrow> callCallback exec flushedNode s1;
       (case r of
          Thrown \<Rightarrow> Some (Thrown, s2)
        | Normal None \<Rightarrow> Some (Normal (), s2)
        | Normal (Some continuationCallback) \<Rightarrow>
            do {
              s3 \<leftarrow> insertContinuation continuationCallback
                      (priorityLevel (heap s1 flushedNode)) (expirationTime (heap s1 flushedNode)) s2;
              Some (Normal (), s3)
            })
     }"

subsection \<open>Flushing\<close>

definition firstIsImmediate :: "sched \<Rightarrow> bool" where
  "firstIsImmediate s =
     (case firstCallbackNode s of
        None \<Rightarrow> False
      | Some f \<Rightarrow> priorityLevel (heap s f) = ImmediatePriority)"

text \<open>The \<^verbatim>\<open>do ... while\<close> loop of \<^verbatim>\<open>flushImmediateWork\<close>.\<close>

partial_function (option) flushImmediateLoop ::
  "executor \<Rightarrow> sched \<Rightarrow> (unit completion \<times> sched) option" where
  "flushImmediateLoop exec s =
     (case flushFirstCallback exec s of
        None \<Rightarrow> None
      | Some (Thrown, s1) \<Rightarrow> Some (Thrown, s1)
      | Some (Normal u, s1) \<Rightarrow>
          if firstIsImmediate s1 then flushImmediateLoop exec s1 else Some (Normal (), s1))"

text \<open>
  The \<^verbatim>\<open>finally\<close> blocks of \<^verbatim>\<open>flushImmediateWork\<close> and \<^verbatim>\<open>flushWork\<close> end alike:
  \<^verbatim>\<open>if (firstCallbackNode !== null) ensureHostCallbackIsScheduled();
  else isHostCallbackScheduled = false;\<close>
\<close>

definition requestRemaining :: "sched \<Rightarrow> sched option" where
  "requestRemaining s =
     (if firstCallbackNode s \<noteq> None then ensureHostCallbackIsScheduled s
      else Some (s\<lparr>isHostCallbackScheduled := False\<rparr>))"

definition flushImmediateWork :: "executor \<Rightarrow> sched \<Rightarrow> (unit completion \<times> sched) option" where
  "flushImmediateWork exec s =
     (if currentEventStartTime s = - 1 \<and> firstIsImmediate s then
        do {
          (r, s1) \<leftarrow> flushImmediateLoop exec (s\<lparr>isExecutingCallback := True\<rparr>);
          s2 \<leftarrow> requestRemaining (s1\<lparr>isExecutingCallback := False\<rparr>);
          Some (r, s2)
        }
      else Some (Normal (), s))"

definition paused :: "sched \<Rightarrow> bool" where
  "paused s = (enableSchedulerDebugging s \<and> isSchedulerPaused s)"

definition firstExpired :: "int \<Rightarrow> sched \<Rightarrow> bool" where
  "firstExpired currentTime s =
     (case firstCallbackNode s of
        None \<Rightarrow> False
      | Some f \<Rightarrow> expirationTime (heap s f) \<le> currentTime)"

text \<open>The inner \<^verbatim>\<open>do ... while\<close> loop of the branch \<^verbatim>\<open>didTimeout\<close> of \<^verbatim>\<open>flushWork\<close>.\<close>

partial_function (option) flushExpiredBatch ::
  "executor \<Rightarrow> int \<Rightarrow> sched \<Rightarrow> (unit completion \<times> sched) option" where
  "flushExpiredBatch exec currentTime s =
     (case flushFirstCallback exec s of
        None \<Rightarrow> None
      | Some (Thrown, s1) \<Rightarrow> Some (Thrown, s1)
      | Some (Normal u, s1) \<Rightarrow>
          if firstExpired currentTime s1 \<and> \<not> paused s1
          then flushExpiredBatch exec currentTime s1
          else Some (Normal (), s1))"

text \<open>The outer \<^verbatim>\<open>while\<close> loop of that branch.\<close>

partial_function (option) flushExpired ::
  "executor \<Rightarrow> sched \<Rightarrow> (unit completion \<times> sched) option" where
  "flushExpired exec s =
     (if firstCallbackNode s \<noteq> None \<and> \<not> paused s then
        (case getCurrentTime s of (currentTime, s1) \<Rightarrow>
           if firstExpired currentTime s1 then
             (case flushExpiredBatch exec currentTime s1 of
                None \<Rightarrow> None
              | Some (Thrown, s2) \<Rightarrow> Some (Thrown, s2)
              | Some (Normal u, s2) \<Rightarrow> flushExpired exec s2)
           else Some (Normal (), s1))
      else Some (Normal (), s))"

text \<open>The \<^verbatim>\<open>do ... while\<close> loop of the other branch.\<close>

partial_function (option) flushUntilYield ::
  "executor \<Rightarrow> sched \<Rightarrow> (unit completion \<times> sched) option" where
  "flushUntilYield exec s =
     (if paused s then Some (Normal (), s)
      else case flushFirstCallback exec s of
        None \<Rightarrow> None
      | Some (Thrown, s1) \<Rightarrow> Some (Thrown, s1)
      | Some (Normal u, s1) \<Rightarrow>
          if firstCallbackNode s1 \<noteq> None then
            (case shouldYieldToHost s1 of (yield, s2) \<Rightarrow>
               if \<not> yield then flushUntilYield exec s2 else Some (Normal (), s2))
          else Some (Normal (), s1))"

text \<open>
  A \<^verbatim>\<open>finally\<close> block that itself throws replaces the completion of the \<^verbatim>\<open>try\<close>
  block; otherwise the completion of the \<^verbatim>\<open>try\<close> block stands.
\<close>

definition afterFinally :: "'a completion \<Rightarrow> unit completion \<Rightarrow> 'a completion" where
  "afterFinally r f = (case f of Thrown \<Rightarrow> Thrown | Normal u \<Rightarrow> r)"

text \<open>The \<^verbatim>\<open>try\<close> block of \<^verbatim>\<open>flushWork\<close>.\<close>

definition flushWorkTry :: "executor \<Rightarrow> bool \<Rightarrow> sched \<Rightarrow> (unit completion \<times> sched) option" where
  "flushWorkTry exec didTimeout s =
     (if didTimeout then flushExpired exec s
      else if firstCallbackNode s \<noteq> None then flushUntilYield exec s
      else Some (Normal (), s))"

definition flushWork :: "executor \<Rightarrow> bool \<Rightarrow> sched \<Rightarrow> (unit completion \<times> sched) option" where
  "flushWork exec didTimeout s =
     (if paused s then Some (Normal (), s)
      else
        let previousDidTimeout = currentDidTimeout s
        in do {
          (r, s2) \<leftarrow> flushWorkTry exec didTimeout
                       (s\<lparr>isExecutingCallback := True, currentDidTimeout := didTimeout\<rparr>);
          s3 \<leftarrow> requestRemaining
                  (s2\<lparr>isExecutingCallback := False, currentDidTimeout := previousDidTimeout\<rparr>);
          (f, s4) \<leftarrow> flushImmediateWork exec s3;
          Some (afterFinally r f, s4)
        })"

subsection \<open>Priorities, cancellation and yielding\<close>

text \<open>
  \<^verbatim>\<open>unstable_runWithPriority(priorityLevel, eventHandler)\<close>. The handler is a function of
  the program that uses the scheduler; it returns a value or throws. \<open>eventEntry\<close> is
  the state in which the handler starts: the two assignments
  \<^verbatim>\<open>currentPriorityLevel = priorityLevel; currentEventStartTime = getCurrentTime();\<close>
  have been made.
\<close>

definition validPriority :: "int \<Rightarrow> bool" where
  "validPriority p =
     (p = ImmediatePriority \<or> p = UserBlockingPriority \<or> p = NormalPriority \<or>
      p = LowPriority \<or> p = IdlePriority)"

definition eventEntry :: "int \<Rightarrow> sched \<Rightarrow> sched" where
  "eventEntry p s =
     (case getCurrentTime (s\<lparr>currentPriorityLevel := p\<rparr>) of
        (now, s1) \<Rightarrow> s1\<lparr>currentEventStartTime := now\<rparr>)"

definition unstable_runWithPriority ::
  "executor \<Rightarrow> int \<Rightarrow> (sched \<Rightarrow> ('a completion \<times> sched) option) \<Rightarrow> sched \<Rightarrow>
   ('a completion \<times> sched) option" where
  "unstable_runWithPriority exec level eventHandler s =
     (let p = (if validPriority level then level else NormalPriority);
          previousPriorityLevel = currentPriorityLevel s;
          previousEventStartTime = currentEventStartTime s
      in do {
        (r, s2) \<leftarrow> eventHandler (eventEntry p s);
        (f, s3) \<leftarrow> flushImmediateWork exec
                     (s2\<lparr>currentPriorityLevel := previousPriorityLevel,
                         currentEventStartTime := previousEventStartTime\<rparr>);
        Some (afterFinally r f, s3)
      })"

definition unstable_next ::
  "executor \<Rightarrow> (sched \<Rightarrow> ('a completion \<times> sched) option) \<Rightarrow> sched \<Rightarrow>
   ('a completion \<times> sched) option" where
  "unstable_next exec eventHandler s =
     (let p = (if currentPriorityLevel s = ImmediatePriority \<or>
                  currentPriorityLevel s = UserBlockingPriority \<or>
                  currentPriorityLevel s = NormalPriority
               then NormalPriority else currentPriorityLevel s);
          previousPriorityLevel = currentPriorityLevel s;
          previousEventStartTime = currentEventStartTime s
      in do {
        (r, s2) \<leftarrow> eventHandler (eventEntry p s);
        (f, s3) \<leftarrow> flushImmediateWork exec
                     (s2\<lparr>currentPriorityLevel := previousPriorityLevel,
                         currentEventStartTime := previousEventStartTime\<rparr>);
        Some (afterFinally r f, s3)
      })"

definition unstable_pauseExecution :: "sched \<Rightarrow> sched" where
  "unstable_pauseExecution s = s\<lparr>isSchedulerPaused := True\<rparr>"

definition unstable_continueExecution :: "sched \<Rightarrow> sched option" where
  "unstable_continueExecution s =
     (let s1 = s\<lparr>isSchedulerPaused := False\<rparr>
      in if firstCallbackNode s1 \<noteq> None then ensureHostCallbackIsScheduled s1 else Some s1)"

definition unstable_getFirstCallbackNode :: "sched \<Rightarrow> ref option" where
  "unstable_getFirstCallbackNode s = firstCallbackNode s"

definition unstable_cancelCallback :: "ref \<Rightarrow> sched \<Rightarrow> sched option" where
  "unstable_cancelCallback callbackNode s =
     (case nxt (heap s callbackNode) of
        None \<Rightarrow> Some s
      | Some next \<Rightarrow>
          do {
            s1 \<leftarrow>
              (if next = callbackNode then Some (s\<lparr>firstCallbackNode := None\<rparr>)
               else
                 let s' = (if Some callbackNode = firstCallbackNode s
                           then s\<lparr>firstCallbackNode := Some next\<rparr> else s)
                 in do {
                   prev \<leftarrow> previous (heap s' callbackNode);
                   let h1 = setNext (heap s') prev (Some next);
                       h2 = setPrevious h1 next (Some prev)
                   in Some (s'\<lparr>heap := h2\<rparr>)
                 });
            Some (s1\<lparr>heap := setPrevious (setNext (heap s1) callbackNode None) callbackNode None\<rparr>)
          })"

definition unstable_getCurrentPriorityLevel :: "sched \<Rightarrow> int" where
  "unstable_getCurrentPriorityLevel s = currentPriorityLevel s"

text \<open>
  \<^verbatim>\<open>unstable_shouldYield\<close>; \<^verbatim>\<open>&&\<close> and \<^verbatim>\<open>||\<close> evaluate their right operand only
  when the left one does not decide, so the host is asked only then.
\<close>

definition unstable_shouldYield :: "sched \<Rightarrow> bool \<times> sched" where
  "unstable_shouldYield s =
     (if currentDidTimeout s then (False, s)
      else if (case firstCallbackNode s of
                 None \<Rightarrow> False
               | Some f \<Rightarrow> expirationTime (heap s f) < currentExpirationTime s)
      then (True, s)
      else shouldYieldToHost s)"

subsection \<open>Expiration times of the reconciler\<close>

text \<open>
  \<^verbatim>\<open>ReactFiberExpirationTime.js\<close>. The numbers are rationals, so that \<^verbatim>\<open>/\<close> is the
  exact quotient; \<^verbatim>\<open>x | 0\<close> drops the fraction (towards zero) and wraps to a signed
  32-bit integer. \<^verbatim>\<open>MAX_SIGNED_31_BIT_INT\<close> is imported from a file that is not part of
  the sources at hand; it is the constant \<open>maxSigned31BitInt\<close> of the scheduler.
\<close>

definition MAX_SIGNED_31_BIT_INT :: rat where
  "MAX_SIGNED_31_BIT_INT = of_int maxSigned31BitInt"

definition UNIT_SIZE :: rat where "UNIT_SIZE = 10"

definition MAGIC_NUMBER_OFFSET :: rat where
  "MAGIC_NUMBER_OFFSET = MAX_SIGNED_31_BIT_INT - 1"

definition toInt32 :: "rat \<Rightarrow> int" where
  "toInt32 x =
     (let t = (if x < 0 then - \<lfloor>- x\<rfloor> else \<lfloor>x\<rfloor>);
          m = t mod 2 ^ 32
      in if m < 2 ^ 31 then m else m - 2 ^ 32)"

definition msToExpirationTime :: "rat \<Rightarrow> rat" where
  "msToExpirationTime ms = MAGIC_NUMBER_OFFSET - of_int (toInt32 (ms / UNIT_SIZE))"

definition expirationTimeToMs :: "rat \<Rightarrow> rat" where
  "expirationTimeToMs expiration = (MAGIC_NUMBER_OFFSET - expiration) * UNIT_SIZE"

definition ceiling_to :: "rat \<Rightarrow> rat \<Rightarrow> rat" where
  "ceiling_to num precision = (of_int (toInt32 (num / precision)) + 1) * precision"

definition computeExpirationBucket :: "rat \<Rightarrow> rat \<Rightarrow> rat \<Rightarrow> rat" where
  "computeExpirationBucket currentTime expirationInMs bucketSizeMs =
     MAGIC_NUMBER_OFFSET -
       ceiling_to (MAGIC_NUMBER_OFFSET - currentTime + expirationInMs / UNIT_SIZE)
         (bucketSizeMs / UNIT_SIZE)"

definition LOW_PRIORITY_EXPIRATION :: rat where "LOW_PRIORITY_EXPIRATION = 5000"
definition LOW_PRIORITY_BATCH_SIZE :: rat where "LOW_PRIORITY_BATCH_SIZE = 250"

definition computeAsyncExpiration :: "rat \<Rightarrow> rat" where
  "computeAsyncExpiration currentTime =
     computeExpirationBucket currentTime LOW_PRIORITY_EXPIRATION LOW_PRIORITY_BATCH_SIZE"

text \<open>
  \<^verbatim>\<open>HIGH_PRIORITY_EXPIRATION\<close> is \<^verbatim>\<open>__DEV__ ? 500 : 150\<close>; the build flag is a parameter.
\<close>

definition HIGH_PRIORITY_EXPIRATION :: "bool \<Rightarrow> rat" where
  "HIGH_PRIORITY_EXPIRATION dev = (if dev then 500 else 150)"

definition HIGH_PRIORITY_BATCH_SIZE :: rat where "HIGH_PRIORITY_BATCH_SIZE = 100"

definition computeInteractiveExpiration :: "bool \<Rightarrow> rat \<Rightarrow> rat" where
  "computeInteractiveExpiration dev currentTime =
     computeExpirationBucket currentTime (HIGH_PRIORITY_EXPIRATION dev) HIGH_PRIORITY_BATCH_SIZE"

text \<open>
  The batch window of a request: the number of whole buckets below the combined value
  (the distance of the anchor from the offset, plus the offset of the priority class,
  in units).
\<close>

definition expirationWindow :: "rat \<Rightarrow> rat \<Rightarrow> rat \<Rightarrow> int" where
  "expirationWindow currentTime expirationInMs bucketSizeMs =
     \<lfloor>(MAGIC_NUMBER_OFFSET - currentTime + expirationInMs / UNIT_SIZE) /
      (bucketSizeMs / UNIT_SIZE)\<rfloor>"

subsection \<open>The queue that the linked nodes represent\<close>

text \<open>
  \<open>dll h p xs n\<close>: the nodes \<open>xs\<close> are linked in this order, the first one back to
  \<open>p\<close> and the last one on to \<open>n\<close>. \<open>ring s xs\<close>: the circular list that starts at
  \<^verbatim>\<open>firstCallbackNode\<close> holds exactly the nodes \<open>xs\<close>, in this order. \<open>queue s xs\<close>:
  moreover the expiration times ascend.
\<close>

fun dll :: "(ref \<Rightarrow> callbackNode) \<Rightarrow> ref \<Rightarrow> ref list \<Rightarrow> ref \<Rightarrow> bool" where
  "dll h p [] n = True"
| "dll h p [x] n = (previous (h x) = Some p \<and> nxt (h x) = Some n)"
| "dll h p (x # y # ys) n =
     (previous (h x) = Some p \<and> nxt (h x) = Some y \<and> dll h x (y # ys) n)"

definition ring :: "sched \<Rightarrow> ref list \<Rightarrow> bool" where
  "ring s xs =
     (distinct xs \<and> (\<forall>x\<in>set xs. x < allocated s) \<and>
      (case xs of
         [] \<Rightarrow> firstCallbackNode s = None
       | x # _ \<Rightarrow> firstCallbackNode s = Some x \<and> dll (heap s) (last xs) xs x))"

definition expirations :: "sched \<Rightarrow> ref list \<Rightarrow> int list" where
  "expirations s xs = map (\<lambda>x. expirationTime (heap s x)) xs"

definition queue :: "sched \<Rightarrow> ref list \<Rightarrow> bool" where
  "queue s xs = (ring s xs \<and> sorted (expirations s xs))"

text \<open>The state of the module when it has been loaded, for a given host.\<close>

definition initialSched :: "bool \<Rightarrow> (nat \<Rightarrow> int) \<Rightarrow> (nat \<Rightarrow> bool) \<Rightarrow> sched" where
  "initialSched debugging clk answers =
     \<lparr>heap = (\<lambda>_. \<lparr>callback = 0, priorityLevel = 0, expirationTime = 0,
                    nxt = None, previous = None\<rparr>),
      allocated = 0,
      firstCallbackNode = None,
      currentDidTimeout = False,
      isSchedulerPaused = False,
      currentPriorityLevel = NormalPriority,
      currentEventStartTime = - 1,
      currentExpirationTime = - 1,
      isExecutingCallback = False,
      isHostCallbackScheduled = False,
      enableSchedulerDebugging = debugging,
      hostCallback = None,
      clock = clk,
      clockReads = 0,
      yieldAnswers = answers,
      yieldChecks = 0,
      executed = []\<rparr>"

subsection \<open>Auxiliary notions for the proofs\<close>

declare findNode.simps [code]
declare flushImmediateLoop.simps [code]
declare flushExpiredBatch.simps [code]
declare flushExpired.simps [code]
declare flushUntilYield.simps [code]

text \<open>The expiration time that \<^verbatim>\<open>unstable_scheduleCallback\<close> computes in state \<open>s\<close>.\<close>

definition scheduledExpiration :: "int option \<Rightarrow> sched \<Rightarrow> int" where
  "scheduledExpiration deprecated_options s =
     fst (scheduleStartTime s) +
       (case deprecated_options of Some timeout \<Rightarrow> timeout
        | None \<Rightarrow> priorityTimeout (currentPriorityLevel s))"

text \<open>Two heaps whose nodes differ in their links at most.\<close>

definition sameData :: "(ref \<Rightarrow> callbackNode) \<Rightarrow> (ref \<Rightarrow> callbackNode) \<Rightarrow> bool" where
  "sameData h h' =
     (\<forall>x. callback (h' x) = callback (h x) \<and> priorityLevel (h' x) = priorityLevel (h x) \<and>
          expirationTime (h' x) = expirationTime (h x))"

text \<open>
  Two states that differ at most in the queue (the heap, the allocation counter and
  \<^verbatim>\<open>firstCallbackNode\<close>) and in the request to the host.
\<close>

definition onlyQueue :: "sched \<Rightarrow> sched \<Rightarrow> bool" where
  "onlyQueue s s' =
     (currentDidTimeout s' = currentDidTimeout s \<and>
      isSchedulerPaused s' = isSchedulerPaused s \<and>
      currentPriorityLevel s' = currentPriorityLevel s \<and>
      currentEventStartTime s' = currentEventStartTime s \<and>
      currentExpirationTime s' = currentExpirationTime s \<and>
      isExecutingCallback s' = isExecutingCallback s \<and>
      enableSchedulerDebugging s' = enableSchedulerDebugging s \<and>
      clock s' = clock s \<and> clockReads s' = clockReads s \<and>
      yieldAnswers s' = yieldAnswers s \<and> yieldChecks s' = yieldChecks s \<and>
      executed s' = executed s)"

text \<open>The heap after a node has been linked in between two neighbours, and taken out.\<close>

definition linked :: "(ref \<Rightarrow> callbackNode) \<Rightarrow> ref \<Rightarrow> ref \<Rightarrow> ref \<Rightarrow> ref \<Rightarrow> callbackNode" where
  "linked h new nx pv =
     setPrevious (setNext (setNext (setPrevious h nx (Some new)) pv (Some new)) new (Some nx))
       new (Some pv)"

definition unlinked :: "(ref \<Rightarrow> callbackNode) \<Rightarrow> ref \<Rightarrow> ref \<Rightarrow> ref \<Rightarrow> callbackNode" where
  "unlinked h pv nx = setPrevious (setNext h pv (Some nx)) nx (Some pv)"

text \<open>No callback that runs at Immediate priority throws.\<close>

definition immediateCallbacksReturn :: "executor \<Rightarrow> bool" where
  "immediateCallbacksReturn exec =
     (\<forall>c t t'. currentPriorityLevel t = ImmediatePriority \<longrightarrow> exec c t \<noteq> Some (Thrown, t'))"

text \<open>
  Callbacks that use the scheduler in an orderly way: run in a state with a sorted
  queue, a callback leaves a sorted queue that still holds every item (it schedules
  but does not cancel) with its expiration time, it leaves the log of executed nodes
  and the host's sequences alone, time does not run backwards while it runs, it does
  not ask the host whether to yield, and it does not pause the scheduler.
\<close>

definition orderly :: "executor \<Rightarrow> bool" where
  "orderly exec =
     (\<forall>c s r s' xs. exec c s = Some (r, s') \<and> queue s xs \<longrightarrow>
        (\<exists>ys. queue s' ys \<and> set xs \<subseteq> set ys) \<and>
        (\<forall>x\<in>set xs. expirationTime (heap s' x) = expirationTime (heap s x)) \<and>
        set (executed s) \<subseteq> set (executed s') \<and>
        clock s' = clock s \<and> clockReads s \<le> clockReads s' \<and>
        yieldChecks s' = yieldChecks s \<and> (paused s' \<longrightarrow> paused s))"


subsection \<open>Example states\<close>

text \<open>
  A host whose clock stands at \<open>0\<close> and that never asks to yield, and the state after
  one call \<^verbatim>\<open>unstable_scheduleCallback(callback7)\<close> with that host.
\<close>

definition quietHost :: sched where
  "quietHost = initialSched False (\<lambda>k. 0) (\<lambda>k. False)"

definition oneQueued :: sched where
  "oneQueued =
     (case unstable_scheduleCallback 7 None quietHost of
        Some (h, s) \<Rightarrow> s
      | None \<Rightarrow> quietHost)"

text \<open>
  A host whose clock advances by 50 ms from one reading to the next, and the
  expiration times that two calls of \<^verbatim>\<open>unstable_scheduleCallback\<close> in a row give to
  their nodes.
\<close>

definition tickingHost :: sched where
  "tickingHost = initialSched False (\<lambda>k. 50 * int k) (\<lambda>k. False)"

definition twoCalls :: "sched \<Rightarrow> (int \<times> int) option" where
  "twoCalls s =
     do {
       (h1, s1) \<leftarrow> unstable_scheduleCallback 7 None s;
       (h2, s2) \<leftarrow> unstable_scheduleCallback 8 None s1;
       Some (expirationTime (heap s2 h1), expirationTime (heap s2 h2))
     }"

text \<open>
  Callbacks that do nothing and return no continuation; a call of
  \<^verbatim>\<open>unstable_scheduleCallback(callback)\<close> inside
  \<^verbatim>\<open>unstable_runWithPriority(level, ...)\<close>; and the state after three such calls, at
  UserBlocking priority at the times 0 and 100 and at Immediate priority at the time
  1000, with a host that always asks to yield. The two UserBlocking items are overdue
  when the Immediate item is scheduled, so it is queued behind them.
\<close>

definition idleExec :: executor where
  "idleExec c s = Some (Normal None, s)"

definition scheduleWithPriority :: "int \<Rightarrow> nat \<Rightarrow> sched \<Rightarrow> (ref completion \<times> sched) option" where
  "scheduleWithPriority level cb s =
     unstable_runWithPriority idleExec level
       (\<lambda>t. case unstable_scheduleCallback cb None t of
              None \<Rightarrow> None
            | Some (h, t') \<Rightarrow> Some (Normal h, t')) s"

definition overdueClock :: "nat \<Rightarrow> int" where
  "overdueClock k = (if k = 0 then 0 else if k = 1 then 100 else 1000)"

definition overdueQueue :: "sched option" where
  "overdueQueue =
     do {
       (a, s1) \<leftarrow> scheduleWithPriority UserBlockingPriority 1
                   (initialSched False overdueClock (\<lambda>k. True));
       (b, s2) \<leftarrow> scheduleWithPriority UserBlockingPriority 2 s1;
       (c, s3) \<leftarrow> scheduleWithPriority ImmediatePriority 3 s2;
       Some s3
     }"







section \<open>Lemmas about the linked queue\<close>

lemma setNext_fields [simp]:
  "nxt (setNext h r v x) = (if x = r then v else nxt (h x))"
  "previous (setNext h r v x) = previous (h x)"
  "expirationTime (setNext h r v x) = expirationTime (h x)"
  "priorityLevel (setNext h r v x) = priorityLevel (h x)"
  "callback (setNext h r v x) = callback (h x)"
  by (simp_all add: setNext_def)

lemma setPrevious_fields [simp]:
  "previous (setPrevious h r v x) = (if x = r then v else previous (h x))"
  "nxt (setPrevious h r v x) = nxt (h x)"
  "expirationTime (setPrevious h r v x) = expirationTime (h x)"
  "priorityLevel (setPrevious h r v x) = priorityLevel (h x)"
  "callback (setPrevious h r v x) = callback (h x)"
  by (simp_all add: setPrevious_def)

lemma dll_Cons:
  "dll h p (x # xs) n =
     (previous (h x) = Some p \<and> nxt (h x) = Some (case xs of [] \<Rightarrow> n | y # _ \<Rightarrow> y) \<and> dll h x xs n)"
  by (cases xs) auto

lemma dll_frame:
  "(\<And>x. x \<in> set xs \<Longrightarrow> nxt (h' x) = nxt (h x) \<and> previous (h' x) = previous (h x)) \<Longrightarrow>
   dll h' p xs n = dll h p xs n"
  by (induction h p xs n rule: dll.induct) auto

lemma dll_append:
  "dll h p (xs @ y # ys) n =
     (dll h p xs y \<and> dll h (if xs = [] then p else last xs) (y # ys) n)"
proof (induction xs arbitrary: p)
  case Nil
  then show ?case by simp
next
  case (Cons a xs)
  show ?case
  proof (cases xs)
    case Nil
    then show ?thesis by auto
  next
    case (Cons b bs)
    with Cons.IH [of a] show ?thesis by auto
  qed
qed

lemma dll_snoc:
  "dll h p (xs @ [y]) n =
     (dll h p xs y \<and> previous (h y) = Some (if xs = [] then p else last xs) \<and> nxt (h y) = Some n)"
  by (simp add: dll_append)

lemma dll_last_next:
  "xs \<noteq> [] \<Longrightarrow> distinct xs \<Longrightarrow> dll h p xs n \<Longrightarrow> dll (setNext h (last xs) (Some n')) p xs n'"
proof (induction xs arbitrary: p)
  case Nil
  then show ?case by simp
next
  case (Cons a xs)
  show ?case
  proof (cases xs)
    case Nil
    with Cons.prems show ?thesis by simp
  next
    case (Cons b bs)
    with Cons.prems Cons.IH [of a] show ?thesis by auto
  qed
qed

lemma dll_first_prev:
  assumes "x \<notin> set xs" "dll h p (x # xs) n"
  shows "dll (setPrevious h x (Some p')) p' (x # xs) n"
proof -
  have "dll (setPrevious h x (Some p')) x xs n = dll h x xs n"
    using assms(1) by (intro dll_frame) auto
  with assms(2) show ?thesis by (simp add: dll_Cons)
qed


lemma findNode_dll:
  "bs \<noteq> [] \<Longrightarrow> f \<notin> set (tl bs) \<Longrightarrow> dll h p bs f \<Longrightarrow>
   findNode h stop f (hd bs) =
     Some (case dropWhile (\<lambda>x. \<not> stop (expirationTime (h x))) bs of
             [] \<Rightarrow> None | y # _ \<Rightarrow> Some y)"
proof (induction bs arbitrary: p)
  case Nil
  then show ?case by simp
next
  case (Cons a bs)
  show ?case
  proof (cases bs)
    case Nil
    with Cons.prems show ?thesis
      by (subst findNode.simps) simp
  next
    case (Cons b cs)
    with Cons.prems Cons.IH [of a] show ?thesis
      by (subst findNode.simps) auto
  qed
qed

lemma ring_Cons:
  "ring s (x # xs) =
     (x \<notin> set xs \<and> distinct xs \<and> x < allocated s \<and> (\<forall>y\<in>set xs. y < allocated s) \<and>
      firstCallbackNode s = Some x \<and> dll (heap s) (last (x # xs)) (x # xs) x)"
  by (auto simp: ring_def)

lemma ring_Nil: "ring s [] = (firstCallbackNode s = None)"
  by (simp add: ring_def)

lemma findNode_ring:
  assumes "ring s (x # xs)"
  shows "findNode (heap s) stop x x =
     Some (case dropWhile (\<lambda>y. \<not> stop (expirationTime (heap s y))) (x # xs) of
             [] \<Rightarrow> None | y # _ \<Rightarrow> Some y)"
  using findNode_dll [of "x # xs" x "heap s" "last (x # xs)" stop] assms
  by (simp add: ring_Cons)

text \<open>The heap after the four assignments that link a new node between two neighbours.\<close>

lemma link_between:
  assumes d: "distinct xs" and ne: "xs \<noteq> []" and new: "new \<notin> set xs"
    and r: "dll h (last xs) xs (hd xs)"
  defines "h' \<equiv> setPrevious (setNext (setNext (setPrevious h (hd xs) (Some new))
                   (last xs) (Some new)) new (Some (hd xs))) new (Some (last xs))"
  shows "dll h' new xs new" "previous (h' new) = Some (last xs)" "nxt (h' new) = Some (hd xs)"
proof -
  obtain x ys where xs: "xs = x # ys" using ne by (cases xs) auto
  have 1: "dll (setPrevious h x (Some new)) new (x # ys) x"
    using dll_first_prev [of x ys h "last xs" "hd xs" new] d r xs by simp
  have 2: "dll (setNext (setPrevious h x (Some new)) (last xs) (Some new)) new xs new"
    using dll_last_next [OF ne d, of "setPrevious h x (Some new)" new x new] 1 xs by simp
  show "dll h' new xs new"
    unfolding h'_def using 2 new xs
    by (subst dll_frame [where h = "setNext (setPrevious h x (Some new)) (last xs) (Some new)"]) auto
  show "previous (h' new) = Some (last xs)" "nxt (h' new) = Some (hd xs)"
    by (simp_all add: h'_def)
qed

lemma sameData_refl [simp]: "sameData h h"
  by (simp add: sameData_def)

lemma sameData_trans: "sameData h h' \<Longrightarrow> sameData h' h'' \<Longrightarrow> sameData h h''"
  by (simp add: sameData_def)

lemma sameData_setNext [simp]: "sameData h (setNext h' r v) = sameData h h'"
  by (simp add: sameData_def)

lemma sameData_setPrevious [simp]: "sameData h (setPrevious h' r v) = sameData h h'"
  by (simp add: sameData_def)

lemma ensureHost_Some:
  assumes "firstCallbackNode s = Some f"
  shows "\<exists>b c. ensureHostCallbackIsScheduled s =
           Some (s\<lparr>isHostCallbackScheduled := b, hostCallback := c\<rparr>)"
proof (cases "isExecutingCallback s")
  case True
  have "s = s\<lparr>isHostCallbackScheduled := isHostCallbackScheduled s, hostCallback := hostCallback s\<rparr>"
    by simp
  with True show ?thesis
    unfolding ensureHostCallbackIsScheduled_def by (metis (full_types))
next
  case False
  have "ensureHostCallbackIsScheduled s =
      Some (s\<lparr>isHostCallbackScheduled := True,
              hostCallback := Some (expirationTime (heap s f))\<rparr>)"
    using False assms
    by (cases "isHostCallbackScheduled s")
      (simp_all add: ensureHostCallbackIsScheduled_def requestHostCallback_def
        cancelHostCallback_def)
  then show ?thesis by blast
qed

lemma sameData_linked [simp]: "sameData h (linked h new nx pv)"
  by (simp add: linked_def)

lemma linked_around:
  assumes "distinct xs" "xs \<noteq> []" "new \<notin> set xs" "dll h (last xs) xs (hd xs)"
  shows "dll (linked h new (hd xs) (last xs)) new (xs @ [new]) (hd xs)"
    and "dll (linked h new (hd xs) (last xs)) (last xs) (new # xs) new"
  using link_between [OF assms] assms(2)
  by (simp_all add: dll_snoc dll_Cons linked_def split: list.splits)

lemma linked_middle:
  assumes d: "distinct (as @ y # ys)" and ne: "as \<noteq> []" and new: "new \<notin> set (as @ y # ys)"
    and r: "dll h p (as @ y # ys) n"
  shows "dll (linked h new y (last as)) p (as @ new # y # ys) n"
proof -
  from r ne have 1: "dll h p as y" and 2: "dll h (last as) (y # ys) n"
    by (simp_all add: dll_append)
  have da: "distinct as" and ya: "y \<notin> set as" and yy: "y \<notin> set ys"
    and disj: "set as \<inter> set (y # ys) = {}"
    using d by auto
  have la: "last as \<notin> set (y # ys)"
    using disj last_in_set [OF ne] by blast
  let ?h1 = "setPrevious h y (Some new)"
  let ?h2 = "setNext ?h1 (last as) (Some new)"
  have "dll ?h1 p as y"
    using 1 ya by (subst dll_frame [where h = h]) auto
  then have a: "dll ?h2 p as new"
    using dll_last_next [OF ne da] by blast
  have "dll ?h1 new (y # ys) n"
    using dll_first_prev [OF yy 2] .
  then have b: "dll ?h2 new (y # ys) n"
    using la by (subst dll_frame [where h = ?h1]) auto
  have a': "dll (linked h new y (last as)) p as new"
    unfolding linked_def using a new by (subst dll_frame [where h = ?h2]) auto
  have b': "dll (linked h new y (last as)) new (y # ys) n"
    unfolding linked_def using b new by (subst dll_frame [where h = ?h2]) auto
  have c: "previous (linked h new y (last as) new) = Some (last as)"
    "nxt (linked h new y (last as) new) = Some y"
    by (simp_all add: linked_def)
  show ?thesis
    using a' b' c ne by (simp add: dll_append dll_Cons [of _ _ new])
qed

lemma linkBefore_unfold:
  "previous (heap s (case found of None \<Rightarrow> first | Some n \<Rightarrow> n)) = Some pv \<Longrightarrow>
   firstCallbackNode s = Some first \<Longrightarrow>
   \<exists>f' b c. linkBefore new first found s =
     Some (s\<lparr>heap := linked (heap s) new (case found of None \<Rightarrow> first | Some n \<Rightarrow> n) pv,
             firstCallbackNode := f', isHostCallbackScheduled := b, hostCallback := c\<rparr>) \<and>
     f' = (if found = Some first then Some new else Some first)"
proof (cases "found = Some first")
  case True
  assume p: "previous (heap s (case found of None \<Rightarrow> first | Some n \<Rightarrow> n)) = Some pv"
  obtain b c where eh: "ensureHostCallbackIsScheduled (s\<lparr>firstCallbackNode := Some new\<rparr>) =
      Some (s\<lparr>firstCallbackNode := Some new, isHostCallbackScheduled := b, hostCallback := c\<rparr>)"
    using ensureHost_Some [of "s\<lparr>firstCallbackNode := Some new\<rparr>" new] by auto
  have "linkBefore new first found s =
     Some (s\<lparr>heap := linked (heap s) new first pv,
             firstCallbackNode := Some new, isHostCallbackScheduled := b, hostCallback := c\<rparr>)"
    using True p eh by (simp add: linkBefore_def linked_def Let_def)
  with True show ?thesis by auto
next
  case False
  assume p: "previous (heap s (case found of None \<Rightarrow> first | Some n \<Rightarrow> n)) = Some pv"
    and f: "firstCallbackNode s = Some first"
  have "linkBefore new first found s =
     Some (s\<lparr>heap := linked (heap s) new (case found of None \<Rightarrow> first | Some n \<Rightarrow> n) pv\<rparr>)"
    using False p by (cases found) (simp_all add: linkBefore_def linked_def Let_def)
  moreover have "s\<lparr>heap := linked (heap s) new (case found of None \<Rightarrow> first | Some n \<Rightarrow> n) pv\<rparr> =
     s\<lparr>heap := linked (heap s) new (case found of None \<Rightarrow> first | Some n \<Rightarrow> n) pv,
             firstCallbackNode := Some first, isHostCallbackScheduled := isHostCallbackScheduled s,
             hostCallback := hostCallback s\<rparr>"
    using f by simp
  ultimately show ?thesis using False by metis
qed

lemma ring_iff:
  "xs \<noteq> [] \<Longrightarrow>
   ring s xs = (distinct xs \<and> (\<forall>x\<in>set xs. x < allocated s) \<and>
     firstCallbackNode s = Some (hd xs) \<and> dll (heap s) (last xs) xs (hd xs))"
  by (cases xs) (auto simp: ring_def)

lemma linkBefore_ring:
  assumes r: "ring s (as @ bs)" and ne: "as @ bs \<noteq> []"
    and new: "new \<notin> set (as @ bs)" "new < allocated s"
    and first: "first = hd (as @ bs)"
    and found: "found = (case bs of [] \<Rightarrow> None | y # _ \<Rightarrow> Some y)"
  shows "\<exists>h' f' b c. linkBefore new first found s =
            Some (s\<lparr>heap := h', firstCallbackNode := f', isHostCallbackScheduled := b,
                    hostCallback := c\<rparr>) \<and>
          sameData (heap s) h' \<and>
          ring (s\<lparr>heap := h', firstCallbackNode := f', isHostCallbackScheduled := b,
                  hostCallback := c\<rparr>) (as @ new # bs)"
proof -
  define xs where "xs = as @ bs"
  let ?h = "heap s"
  have xne: "xs \<noteq> []" using ne xs_def by simp
  have d: "distinct xs" and al: "\<forall>y\<in>set xs. y < allocated s"
    and f: "firstCallbackNode s = Some first"
    and dl: "dll ?h (last xs) xs (hd xs)"
    using r ne first unfolding xs_def [symmetric] by (auto simp: ring_def split: list.splits)
  have newx: "new \<notin> set xs" using new xs_def by simp
  have fx: "first = hd xs" using first xs_def by simp
  have prevfirst: "previous (?h first) = Some (last xs)"
    using dl xne fx by (cases xs) (simp_all add: dll_Cons)
  let ?nx = "case found of None \<Rightarrow> first | Some n \<Rightarrow> n"
  have *: "\<exists>pv. previous (?h ?nx) = Some pv \<and>
      dll (linked ?h new ?nx pv) (last (as @ new # bs)) (as @ new # bs)
        (hd (as @ new # bs)) \<and>
      hd (as @ new # bs) = (if found = Some first then new else first)"
  proof (cases bs)
    case Nil
    then have "as = xs" "found = None" using xs_def found by simp_all
    then show ?thesis
      using linked_around(1) [OF d xne newx dl] prevfirst fx xne Nil by auto
  next
    case (Cons y ys)
    show ?thesis
    proof (cases as)
      case Nil
      then have "bs = xs" "found = Some first" using xs_def found Cons fx by auto
      then show ?thesis
        using linked_around(2) [OF d xne newx dl] prevfirst fx xne Nil by auto
    next
      case (Cons a as')
      then have ane: "as \<noteq> []" by simp
      have fy: "found = Some y" using found \<open>bs = y # ys\<close> by simp
      have xs': "xs = as @ y # ys" using xs_def \<open>bs = y # ys\<close> by simp
      have "hd xs \<in> set as" using ane xs' by (cases as) auto
      then have yf: "y \<noteq> first" using d fx xs' by auto
      have py: "previous (?h y) = Some (last as)"
        using dl ane unfolding xs' by (simp add: dll_append dll_Cons)
      have "dll (linked ?h new y (last as)) (last xs) (as @ new # y # ys) (hd xs)"
        using linked_middle [OF _ ane, of y ys new ?h "last xs" "hd xs"] d newx dl
        unfolding xs' by simp
      then show ?thesis
        using fy yf py ane fx xs' \<open>bs = y # ys\<close> by (cases as) auto
    qed
  qed
  then obtain pv where pv: "previous (?h ?nx) = Some pv"
    and dl': "dll (linked ?h new ?nx pv) (last (as @ new # bs)) (as @ new # bs)
        (hd (as @ new # bs))"
    and hd': "hd (as @ new # bs) = (if found = Some first then new else first)"
    by blast
  from linkBefore_unfold [OF pv f, of new]
  obtain f' b c where lk: "linkBefore new first found s =
     Some (s\<lparr>heap := linked ?h new ?nx pv,
             firstCallbackNode := f', isHostCallbackScheduled := b, hostCallback := c\<rparr>)"
    and f': "f' = (if found = Some first then Some new else Some first)"
    by blast
  have "ring (s\<lparr>heap := linked ?h new ?nx pv,
             firstCallbackNode := f', isHostCallbackScheduled := b, hostCallback := c\<rparr>)
          (as @ new # bs)"
  proof -
    have "distinct (as @ new # bs)" "\<forall>y\<in>set (as @ new # bs). y < allocated s"
      using d al new unfolding xs_def by auto
    then show ?thesis
      using dl' hd' f' by (subst ring_iff) (simp_all del: hd_append last_appendR last_appendL)
  qed
  with lk show ?thesis
    using sameData_linked by blast
qed

lemma onlyQueueI [simp]:
  "onlyQueue s (s\<lparr>heap := h, firstCallbackNode := f,
                  isHostCallbackScheduled := b, hostCallback := c\<rparr>)"
  "onlyQueue s (s\<lparr>heap := h\<rparr>)"
  "onlyQueue s (s\<lparr>firstCallbackNode := f\<rparr>)"
  "onlyQueue s s"
  by (simp_all add: onlyQueue_def)

lemma onlyQueue_trans: "onlyQueue s s' \<Longrightarrow> onlyQueue s' s'' \<Longrightarrow> onlyQueue s s''"
  by (simp add: onlyQueue_def)

lemma ring_frame:
  assumes "ring s xs" "firstCallbackNode s' = firstCallbackNode s" "allocated s \<le> allocated s'"
    "\<And>x. x \<in> set xs \<Longrightarrow> nxt (heap s' x) = nxt (heap s x) \<and> previous (heap s' x) = previous (heap s x)"
  shows "ring s' xs"
proof -
  have *: "dll (heap s') p xs n = dll (heap s) p xs n" for p n
    using assms(4) by (rule dll_frame)
  show ?thesis
  proof (cases "xs = []")
    case True
    with assms(1,2) show ?thesis by (simp add: ring_Nil)
  next
    case False
    with assms(1,2,3) * show ?thesis by (auto simp: ring_iff)
  qed
qed

lemma newCallbackNode_ring:
  assumes "ring s xs"
  shows "ring (snd (newCallbackNode cb p e s)) xs" "allocated s \<notin> set xs"
proof -
  show 2: "allocated s \<notin> set xs" using assms by (auto simp: ring_def)
  show "ring (snd (newCallbackNode cb p e s)) xs"
    using assms 2 by (elim ring_frame) (auto simp: newCallbackNode_def)
qed

text \<open>Insertion of a fresh node by search and link, as both callers do it.\<close>

lemma insert_ring:
  fixes stop :: "int \<Rightarrow> bool"
  assumes r: "ring s (x # xs)" and new: "new \<notin> set (x # xs)" "new < allocated s"
  defines "Q \<equiv> \<lambda>y. \<not> stop (expirationTime (heap s y))"
  shows "\<exists>s'. Option.bind (findNode (heap s) stop x x) (\<lambda>found. linkBefore new x found s) = Some s' \<and>
          onlyQueue s s' \<and> allocated s' = allocated s \<and> sameData (heap s) (heap s') \<and>
          ring s' (takeWhile Q (x # xs) @ new # dropWhile Q (x # xs))"
proof -
  have fn: "findNode (heap s) stop x x =
      Some (case dropWhile Q (x # xs) of [] \<Rightarrow> None | y # _ \<Rightarrow> Some y)"
    unfolding Q_def by (rule findNode_ring [OF r])
  let ?as = "takeWhile Q (x # xs)" and ?bs = "dropWhile Q (x # xs)"
  have 1: "ring s (?as @ ?bs)" and 2: "?as @ ?bs \<noteq> []" and 3: "new \<notin> set (?as @ ?bs)"
    and 4: "x = hd (?as @ ?bs)"
    using r new(1) by (simp_all only: takeWhile_dropWhile_id list.sel not_False_eq_True
        list.distinct)
  from linkBefore_ring [OF 1 2 3 new(2) 4 refl]
  obtain h' f' b c where lk: "linkBefore new x
        (case ?bs of [] \<Rightarrow> None | y # _ \<Rightarrow> Some y) s =
            Some (s\<lparr>heap := h', firstCallbackNode := f', isHostCallbackScheduled := b,
                    hostCallback := c\<rparr>)"
    and sd: "sameData (heap s) h'"
    and rg: "ring (s\<lparr>heap := h', firstCallbackNode := f', isHostCallbackScheduled := b,
                  hostCallback := c\<rparr>) (?as @ new # ?bs)"
    by blast
  show ?thesis
    apply (simp only: fn Option.bind.simps lk)
    apply (rule exI, rule conjI, rule refl)
    using sd rg apply simp
    done
qed

lemma scheduleStartTime_frame [simp]:
  "heap (snd (scheduleStartTime s)) = heap s"
  "allocated (snd (scheduleStartTime s)) = allocated s"
  "firstCallbackNode (snd (scheduleStartTime s)) = firstCallbackNode s"
  "currentPriorityLevel (snd (scheduleStartTime s)) = currentPriorityLevel s"
  "currentEventStartTime (snd (scheduleStartTime s)) = currentEventStartTime s"
  by (simp_all add: scheduleStartTime_def getCurrentTime_def)

lemma newCallbackNode_simps [simp]:
  "fst (newCallbackNode cb p e s) = allocated s"
  "allocated (snd (newCallbackNode cb p e s)) = Suc (allocated s)"
  "firstCallbackNode (snd (newCallbackNode cb p e s)) = firstCallbackNode s"
  "onlyQueue s (snd (newCallbackNode cb p e s))"
  "y \<noteq> allocated s \<Longrightarrow> heap (snd (newCallbackNode cb p e s)) y = heap s y"
  "a = allocated s \<Longrightarrow> callback (heap (snd (newCallbackNode cb p e s)) a) = cb"
  "a = allocated s \<Longrightarrow> priorityLevel (heap (snd (newCallbackNode cb p e s)) a) = p"
  "a = allocated s \<Longrightarrow> expirationTime (heap (snd (newCallbackNode cb p e s)) a) = e"
  by (simp_all add: newCallbackNode_def onlyQueue_def)

lemma sameData_D:
  "sameData h h' \<Longrightarrow> callback (h' x) = callback (h x)"
  "sameData h h' \<Longrightarrow> priorityLevel (h' x) = priorityLevel (h x)"
  "sameData h h' \<Longrightarrow> expirationTime (h' x) = expirationTime (h x)"
  by (simp_all add: sameData_def)

lemma schedule_ring:
  fixes opts :: "int option"
  assumes r: "ring s xs"
  defines "e \<equiv> scheduledExpiration opts s"
  defines "new \<equiv> allocated s"
  shows "\<exists>s'. unstable_scheduleCallback cb opts s = Some (new, s') \<and>
     onlyQueue (snd (scheduleStartTime s)) s' \<and> allocated s' = Suc (allocated s) \<and>
     ring s' (takeWhile (\<lambda>y. expirationTime (heap s y) \<le> e) xs @ new #
              dropWhile (\<lambda>y. expirationTime (heap s y) \<le> e) xs) \<and>
     (\<forall>y. y \<noteq> new \<longrightarrow> callback (heap s' y) = callback (heap s y) \<and>
        priorityLevel (heap s' y) = priorityLevel (heap s y) \<and>
        expirationTime (heap s' y) = expirationTime (heap s y)) \<and>
     callback (heap s' new) = cb \<and> priorityLevel (heap s' new) = currentPriorityLevel s \<and>
     expirationTime (heap s' new) = e"
proof -
  define s1 where "s1 = snd (scheduleStartTime s)"
  define s2 where "s2 = snd (newCallbackNode cb (currentPriorityLevel s) e s1)"
  have e: "e = (case opts of Some timeout \<Rightarrow> fst (scheduleStartTime s) + timeout
                | None \<Rightarrow> fst (scheduleStartTime s) + priorityTimeout (currentPriorityLevel s))"
    by (simp add: e_def scheduledExpiration_def split: option.splits)
  have r1: "ring s1 xs"
    using r unfolding s1_def by (rule ring_frame) simp_all
  have r2: "ring s2 xs" and nx: "new \<notin> set xs"
    using newCallbackNode_ring [OF r1] by (simp_all add: s2_def s1_def new_def)
  have a2: "allocated s2 = Suc new" and f2: "firstCallbackNode s2 = firstCallbackNode s"
    and q2: "onlyQueue s1 s2"
    and h2: "\<And>y. y \<noteq> new \<Longrightarrow> heap s2 y = heap s y"
    and n2: "callback (heap s2 new) = cb" "priorityLevel (heap s2 new) = currentPriorityLevel s"
      "expirationTime (heap s2 new) = e"
    by (simp_all add: s2_def s1_def new_def)
  have an: "allocated s = new" by (simp add: new_def)
  have unf: "unstable_scheduleCallback cb opts s =
     (case firstCallbackNode s2 of
        None \<Rightarrow> Option.bind (ensureHostCallbackIsScheduled
                   (s2\<lparr>firstCallbackNode := Some new,
                      heap := setPrevious (setNext (heap s2) new (Some new)) new (Some new)\<rparr>))
                  (\<lambda>s3. Some (new, s3))
      | Some first \<Rightarrow>
          Option.bind (Option.bind (findNode (heap s2) (\<lambda>x. x > e) first first)
                         (\<lambda>found. linkBefore new first found s2))
            (\<lambda>s3. Some (new, s3)))"
    unfolding unstable_scheduleCallback_def s2_def s1_def new_def e
    by (simp add: split_beta Let_def split: option.splits)
  show ?thesis
  proof (cases xs)
    case Nil
    then have fn: "firstCallbackNode s2 = None" using r2 by (simp add: ring_Nil)
    let ?t = "s2\<lparr>firstCallbackNode := Some new,
                  heap := setPrevious (setNext (heap s2) new (Some new)) new (Some new)\<rparr>"
    obtain b c where eh: "ensureHostCallbackIsScheduled ?t =
        Some (?t\<lparr>isHostCallbackScheduled := b, hostCallback := c\<rparr>)"
      using ensureHost_Some [of ?t new] by auto
    have "ring (?t\<lparr>isHostCallbackScheduled := b, hostCallback := c\<rparr>) [new]"
      using a2 by (simp add: ring_def)
    moreover have "onlyQueue s1 (?t\<lparr>isHostCallbackScheduled := b, hostCallback := c\<rparr>)"
      using q2 by (simp add: onlyQueue_def)
    ultimately show ?thesis
      using Nil a2 h2 n2 by (simp add: unf fn eh s1_def an)
  next
    case (Cons x xs')
    then have fn: "firstCallbackNode s2 = Some x" using r2 by (simp add: ring_Cons)
    have "new \<notin> set (x # xs')" "new < allocated s2" using nx Cons a2 by simp_all
    from insert_ring [OF r2 [unfolded Cons] this, of "\<lambda>x. x > e"]
    obtain s' where ins: "Option.bind (findNode (heap s2) (\<lambda>x. x > e) x x)
          (\<lambda>found. linkBefore new x found s2) = Some s'"
      and q: "onlyQueue s2 s'" and a: "allocated s' = allocated s2"
      and sd: "sameData (heap s2) (heap s')"
      and rg: "ring s' (takeWhile (\<lambda>y. \<not> e < expirationTime (heap s2 y)) (x # xs') @ new #
          dropWhile (\<lambda>y. \<not> e < expirationTime (heap s2 y)) (x # xs'))"
      by blast
    have hx: "heap s2 y = heap s y" if "y \<in> set xs" for y
      using that nx h2 [of y] by auto
    have tw: "takeWhile (\<lambda>y. \<not> e < expirationTime (heap s2 y)) xs =
        takeWhile (\<lambda>y. expirationTime (heap s y) \<le> e) xs"
      by (intro takeWhile_cong) (simp_all add: hx not_less)
    have dw: "dropWhile (\<lambda>y. \<not> e < expirationTime (heap s2 y)) xs =
        dropWhile (\<lambda>y. expirationTime (heap s y) \<le> e) xs"
      by (intro dropWhile_cong) (simp_all add: hx not_less)
    have "ring s' (takeWhile (\<lambda>y. expirationTime (heap s y) \<le> e) xs @ new #
              dropWhile (\<lambda>y. expirationTime (heap s y) \<le> e) xs)"
      using rg unfolding Cons [symmetric] tw dw .
    moreover have "onlyQueue s1 s'" using q2 q by (rule onlyQueue_trans)
    ultimately show ?thesis
      using a a2 h2 n2 sameData_D [OF sd] by (simp add: unf fn ins s1_def an)
  qed
qed

lemma sorted_insert_after:
  "sorted (map f xs) \<Longrightarrow>
   sorted (map f (takeWhile (\<lambda>y. f y \<le> e) xs) @ e # map f (dropWhile (\<lambda>y. f y \<le> e) xs))"
  by (induction xs) (auto simp: sorted_append dest: set_takeWhileD)

lemma dropWhile_le_sorted:
  "sorted (map f xs) \<Longrightarrow> y \<in> set (dropWhile (\<lambda>y. f y \<le> e) xs) \<Longrightarrow> (e::int) < f y"
  by (induction xs) (auto split: if_splits)

lemma sorted_insert_before:
  "sorted (map f xs) \<Longrightarrow>
   sorted (map f (takeWhile (\<lambda>y. f y < e) xs) @ e # map f (dropWhile (\<lambda>y. f y < e) xs))"
  by (induction xs) (auto simp: sorted_append dest: set_takeWhileD)

lemma dropWhile_less_sorted:
  "sorted (map f xs) \<Longrightarrow> y \<in> set (dropWhile (\<lambda>y. f y < e) xs) \<Longrightarrow> (e::int) \<le> f y"
  by (induction xs) (auto split: if_splits)

lemma sameData_unlinked [simp]: "sameData h (unlinked h pv nx)"
  by (simp add: unlinked_def)

lemma unlinked_ends:
  assumes d: "distinct xs" and ne: "xs \<noteq> []" and r: "dll h p xs n"
  shows "dll (unlinked h (last xs) (hd xs)) (last xs) xs (hd xs)"
proof -
  obtain x ys where xs: "xs = x # ys" using ne by (cases xs) auto
  have 1: "dll (setNext h (last xs) (Some (hd xs))) p xs (hd xs)"
    using dll_last_next [OF ne d r] .
  show ?thesis
    unfolding unlinked_def using dll_first_prev [of x ys _ p "hd xs" "last xs"] 1 d xs
    by simp
qed

lemma unlinked_ring:
  assumes d: "distinct (as @ x # bs)" and ne: "as @ bs \<noteq> []"
    and r: "dll h (last (as @ x # bs)) (as @ x # bs) (hd (as @ x # bs))"
  defines "pv \<equiv> (if as = [] then last bs else last as)"
  defines "nx \<equiv> (if bs = [] then hd as else hd bs)"
  shows "previous (h x) = Some pv" "nxt (h x) = Some nx" "nx \<noteq> x"
    "dll (unlinked h pv nx) (last (as @ bs)) (as @ bs) (hd (as @ bs))"
proof -
  have *: "previous (h x) = Some pv \<and> nxt (h x) = Some nx \<and> nx \<noteq> x \<and>
    dll (unlinked h pv nx) (last (as @ bs)) (as @ bs) (hd (as @ bs))"
  proof (cases as)
    case Nil
    then obtain b bs' where bs: "bs = b # bs'" using ne by (cases bs) auto
    have "dll h x bs x" using r Nil bs by (simp add: dll_Cons)
    from unlinked_ends [OF _ _ this] show ?thesis
      using r d Nil bs by (auto simp: pv_def nx_def dll_Cons)
  next
    case (Cons a as')
    then have ane: "as \<noteq> []" by simp
    show ?thesis
    proof (cases bs)
      case Nil
      have "dll h x as x" using r Nil ane by (simp add: dll_append)
      from unlinked_ends [OF _ ane this] show ?thesis
        using r d Nil ane by (auto simp: pv_def nx_def dll_append)
    next
      case (Cons b bs')
      then have bne: "bs \<noteq> []" by simp
      have 1: "dll h (last bs) as x" and 2: "dll h x bs (hd as)"
        and 3: "previous (h x) = Some (last as)" "nxt (h x) = Some (hd bs)"
        using r ane Cons by (simp_all add: dll_append dll_Cons [of _ _ x])
      have da: "distinct as" and db: "distinct bs" and disj: "set as \<inter> set bs = {}"
        and xa: "x \<notin> set as" "x \<notin> set bs"
        using d by auto
      have la: "last as \<notin> set bs" using disj last_in_set [OF ane] by blast
      have hb: "hd bs \<notin> set as" using disj hd_in_set [OF bne] by blast
      let ?h1 = "setNext h (last as) (Some (hd bs))"
      have a1: "dll ?h1 (last bs) as (hd bs)" using dll_last_next [OF ane da 1] .
      have a2: "dll (unlinked h (last as) (hd bs)) (last bs) as (hd bs)"
        unfolding unlinked_def using a1 hb by (subst dll_frame [where h = ?h1]) auto
      have "dll ?h1 x bs (hd as)"
        using 2 la by (subst dll_frame [where h = h]) auto
      then have b2: "dll (unlinked h (last as) (hd bs)) (last as) bs (hd as)"
        unfolding unlinked_def using dll_first_prev [of b bs' ?h1 x "hd as" "last as"] db Cons
        by simp
      have "hd bs \<noteq> x" using xa hd_in_set [OF bne] by blast
      then show ?thesis
        using a2 b2 3 ane bne Cons by (simp add: pv_def nx_def dll_append)
    qed
  qed
  then show "previous (h x) = Some pv" "nxt (h x) = Some nx" "nx \<noteq> x"
    "dll (unlinked h pv nx) (last (as @ bs)) (as @ bs) (hd (as @ bs))"
    by simp_all
qed

lemma unlinkFirst_ring:
  assumes r: "ring s (x # xs)"
  shows "\<exists>s'. unlinkFirst s = Some (x, s') \<and> ring s' xs \<and> onlyQueue s s' \<and>
     allocated s' = allocated s \<and> sameData (heap s) (heap s') \<and>
     nxt (heap s' x) = None \<and> previous (heap s' x) = None \<and>
     isHostCallbackScheduled s' = isHostCallbackScheduled s \<and> hostCallback s' = hostCallback s"
proof (cases xs)
  case Nil
  then have "nxt (heap s x) = Some x" "firstCallbackNode s = Some x"
    using r by (simp_all add: ring_Cons)
  then show ?thesis
    using Nil by (simp add: unlinkFirst_def ring_Nil onlyQueue_def)
next
  case (Cons y ys)
  then have ne: "[] @ xs \<noteq> []" by simp
  have d: "distinct ([] @ x # xs)" and f: "firstCallbackNode s = Some x"
    and dl: "dll (heap s) (last ([] @ x # xs)) ([] @ x # xs) (hd ([] @ x # xs))"
    and al: "\<forall>y\<in>set xs. y < allocated s"
    using r by (simp_all add: ring_Cons)
  note U = unlinked_ring [OF d ne dl]
  have p: "previous (heap s x) = Some (last xs)" and n: "nxt (heap s x) = Some (hd xs)"
    and nx: "hd xs \<noteq> x"
    and dl': "dll (unlinked (heap s) (last xs) (hd xs)) (last xs) xs (hd xs)"
    using U Cons by simp_all
  let ?h = "setPrevious (setNext (unlinked (heap s) (last xs) (hd xs)) x None) x None"
  have u: "unlinkFirst s = Some (x, s\<lparr>firstCallbackNode := Some (hd xs), heap := ?h\<rparr>)"
    using f p n nx by (simp add: unlinkFirst_def unlinked_def Let_def)
  have "dll ?h (last xs) xs (hd xs)"
    using dl' d by (subst dll_frame [where h = "unlinked (heap s) (last xs) (hd xs)"]) auto
  then have "ring (s\<lparr>firstCallbackNode := Some (hd xs), heap := ?h\<rparr>) xs"
    using d al Cons by (subst ring_iff) auto
  then show ?thesis
    using u by (simp add: onlyQueue_def)
qed

lemma cancel_ring:
  assumes r: "ring s xs" and x: "x \<in> set xs"
  shows "\<exists>s'. unstable_cancelCallback x s = Some s' \<and> ring s' (remove1 x xs) \<and>
     onlyQueue s s' \<and> allocated s' = allocated s \<and> sameData (heap s) (heap s') \<and>
     nxt (heap s' x) = None \<and> previous (heap s' x) = None \<and>
     isHostCallbackScheduled s' = isHostCallbackScheduled s \<and> hostCallback s' = hostCallback s"
proof -
  have d: "distinct xs" and al: "\<forall>y\<in>set xs. y < allocated s"
    using r by (simp_all add: ring_def)
  obtain as bs where xs: "xs = as @ x # bs" using x by (meson split_list)
  have xa: "x \<notin> set as" "x \<notin> set bs" using d xs by auto
  then have rm: "remove1 x xs = as @ bs" by (simp add: xs remove1_append)
  have f: "firstCallbackNode s = Some (hd xs)" and dl: "dll (heap s) (last xs) xs (hd xs)"
    using r xs by (simp_all add: ring_iff)
  show ?thesis
  proof (cases "as @ bs = []")
    case True
    then have "nxt (heap s x) = Some x" using dl xs by simp
    then show ?thesis
      using True rm by (simp add: unstable_cancelCallback_def ring_Nil onlyQueue_def)
  next
    case False
    define pv where "pv = (if as = [] then last bs else last as)"
    define nx where "nx = (if bs = [] then hd as else hd bs)"
    note U = unlinked_ring [OF d [unfolded xs] False dl [unfolded xs]]
    have p: "previous (heap s x) = Some pv" and n: "nxt (heap s x) = Some nx"
      and nxx: "nx \<noteq> x"
      and dl': "dll (unlinked (heap s) pv nx) (last (as @ bs)) (as @ bs) (hd (as @ bs))"
      using U unfolding pv_def nx_def by simp_all
    define f' where "f' = (if as = [] then Some nx else firstCallbackNode s)"
    have f'': "f' = Some (hd (as @ bs))"
      using f False by (auto simp: f'_def nx_def xs)
    have fx: "(Some x = firstCallbackNode s) = (as = [])"
    proof (cases as)
      case Nil
      then show ?thesis using f xs by simp
    next
      case (Cons a as')
      then have "hd xs \<in> set as" using xs by simp
      then show ?thesis using f xa Cons by auto
    qed
    let ?h = "setPrevious (setNext (unlinked (heap s) pv nx) x None) x None"
    have u: "unstable_cancelCallback x s = Some (s\<lparr>firstCallbackNode := f', heap := ?h\<rparr>)"
      using p n nxx fx by (cases "as = []")
        (simp_all add: unstable_cancelCallback_def unlinked_def Let_def f'_def)
    have "dll ?h (last (as @ bs)) (as @ bs) (hd (as @ bs))"
      using dl' xa by (subst dll_frame [where h = "unlinked (heap s) pv nx"]) auto
    then have "ring (s\<lparr>firstCallbackNode := f', heap := ?h\<rparr>) (as @ bs)"
      using d al f'' False unfolding xs by (subst ring_iff) auto
    then show ?thesis
      using u rm by (simp add: onlyQueue_def)
  qed
qed

lemma cancel_unlinked:
  "nxt (heap s x) = None \<Longrightarrow> unstable_cancelCallback x s = Some s"
  by (simp add: unstable_cancelCallback_def)

lemma priorityTimeout_table:
  "priorityTimeout p =
     (if p = ImmediatePriority then - 1
      else if p = UserBlockingPriority then 250
      else if p = NormalPriority then 5000
      else if p = LowPriority then 10000
      else if p = IdlePriority then 1073741823
      else 5000)"
  by (simp add: priorityTimeout_def ImmediatePriority_def UserBlockingPriority_def
      NormalPriority_def LowPriority_def IdlePriority_def IMMEDIATE_PRIORITY_TIMEOUT_def
      USER_BLOCKING_PRIORITY_def NORMAL_PRIORITY_TIMEOUT_def LOW_PRIORITY_TIMEOUT_def
      IDLE_PRIORITY_def maxSigned31BitInt_def)

lemma scheduleStartTime_fst:
  "fst (scheduleStartTime s) =
     (if currentEventStartTime s \<noteq> - 1 then currentEventStartTime s
      else clock s (clockReads s))"
  by (simp add: scheduleStartTime_def getCurrentTime_def)

lemma ring_initialSched: "ring (initialSched d c a) []"
  by (simp add: ring_Nil initialSched_def)

lemma insertContinuation_ring:
  assumes r: "ring s xs"
  defines "new \<equiv> allocated s"
  shows "\<exists>s'. insertContinuation c p e s = Some s' \<and>
     onlyQueue s s' \<and> allocated s' = Suc (allocated s) \<and>
     ring s' (takeWhile (\<lambda>y. expirationTime (heap s y) < e) xs @ new #
              dropWhile (\<lambda>y. expirationTime (heap s y) < e) xs) \<and>
     (\<forall>y. y \<noteq> new \<longrightarrow> callback (heap s' y) = callback (heap s y) \<and>
        priorityLevel (heap s' y) = priorityLevel (heap s y) \<and>
        expirationTime (heap s' y) = expirationTime (heap s y)) \<and>
     callback (heap s' new) = c \<and> priorityLevel (heap s' new) = p \<and>
     expirationTime (heap s' new) = e"
proof -
  define s2 where "s2 = snd (newCallbackNode c p e s)"
  have r2: "ring s2 xs" and nx: "new \<notin> set xs"
    using newCallbackNode_ring [OF r] by (simp_all add: s2_def new_def)
  have a2: "allocated s2 = Suc new" and f2: "firstCallbackNode s2 = firstCallbackNode s"
    and q2: "onlyQueue s s2"
    and h2: "\<And>y. y \<noteq> new \<Longrightarrow> heap s2 y = heap s y"
    and n2: "callback (heap s2 new) = c" "priorityLevel (heap s2 new) = p"
      "expirationTime (heap s2 new) = e"
    by (simp_all add: s2_def new_def)
  have an: "allocated s = new" by (simp add: new_def)
  have unf: "insertContinuation c p e s =
     (case firstCallbackNode s2 of
        None \<Rightarrow> Some (s2\<lparr>firstCallbackNode := Some new,
                      heap := setPrevious (setNext (heap s2) new (Some new)) new (Some new)\<rparr>)
      | Some first \<Rightarrow>
          Option.bind (findNode (heap s2) (\<lambda>x. x \<ge> e) first first)
                         (\<lambda>found. linkBefore new first found s2))"
    unfolding insertContinuation_def s2_def new_def
    by (simp add: split_beta split: option.splits)
  show ?thesis
  proof (cases xs)
    case Nil
    then have fn: "firstCallbackNode s2 = None" using r2 by (simp add: ring_Nil)
    let ?t = "s2\<lparr>firstCallbackNode := Some new,
                  heap := setPrevious (setNext (heap s2) new (Some new)) new (Some new)\<rparr>"
    have "ring ?t [new]"
      using a2 by (simp add: ring_def)
    moreover have "onlyQueue s ?t"
      using q2 by (simp add: onlyQueue_def)
    ultimately show ?thesis
      using Nil a2 h2 n2 by (simp add: unf fn an)
  next
    case (Cons x xs')
    then have fn: "firstCallbackNode s2 = Some x" using r2 by (simp add: ring_Cons)
    have "new \<notin> set (x # xs')" "new < allocated s2" using nx Cons a2 by simp_all
    from insert_ring [OF r2 [unfolded Cons] this, of "\<lambda>x. x \<ge> e"]
    obtain s' where ins: "Option.bind (findNode (heap s2) (\<lambda>x. x \<ge> e) x x)
          (\<lambda>found. linkBefore new x found s2) = Some s'"
      and q: "onlyQueue s2 s'" and a: "allocated s' = allocated s2"
      and sd: "sameData (heap s2) (heap s')"
      and rg: "ring s' (takeWhile (\<lambda>y. \<not> e \<le> expirationTime (heap s2 y)) (x # xs') @ new #
          dropWhile (\<lambda>y. \<not> e \<le> expirationTime (heap s2 y)) (x # xs'))"
      by blast
    have hx: "heap s2 y = heap s y" if "y \<in> set xs" for y
      using that nx h2 [of y] by auto
    have tw: "takeWhile (\<lambda>y. \<not> e \<le> expirationTime (heap s2 y)) xs =
        takeWhile (\<lambda>y. expirationTime (heap s y) < e) xs"
      by (intro takeWhile_cong) (simp_all add: hx not_le)
    have dw: "dropWhile (\<lambda>y. \<not> e \<le> expirationTime (heap s2 y)) xs =
        dropWhile (\<lambda>y. expirationTime (heap s y) < e) xs"
      by (intro dropWhile_cong) (simp_all add: hx not_le)
    have "ring s' (takeWhile (\<lambda>y. expirationTime (heap s y) < e) xs @ new #
              dropWhile (\<lambda>y. expirationTime (heap s y) < e) xs)"
      using rg unfolding Cons [symmetric] tw dw .
    moreover have "onlyQueue s s'" using q2 q by (rule onlyQueue_trans)
    ultimately show ?thesis
      using a a2 h2 n2 sameData_D [OF sd] by (simp add: unf fn ins an)
  qed
qed

text \<open>The same facts for sorted queues.\<close>

lemma expirations_cong:
  "(\<And>x. x \<in> set xs \<Longrightarrow> expirationTime (heap s' x) = expirationTime (heap s x)) \<Longrightarrow>
   expirations s' xs = expirations s xs"
  by (simp add: expirations_def)

lemma queue_inserted:
  assumes q: "queue s xs" and r': "ring s' (as @ new # bs)" and xs: "xs = as @ bs"
    and new: "new \<notin> set xs"
    and same: "\<And>y. y \<noteq> new \<Longrightarrow> expirationTime (heap s' y) = expirationTime (heap s y)"
    and lo: "\<And>y. y \<in> set as \<Longrightarrow> expirationTime (heap s y) \<le> expirationTime (heap s' new)"
    and hi: "\<And>y. y \<in> set bs \<Longrightarrow> expirationTime (heap s' new) \<le> expirationTime (heap s y)"
  shows "queue s' (as @ new # bs)"
proof -
  have s: "sorted (map (\<lambda>x. expirationTime (heap s x)) (as @ bs))"
    using q xs by (simp add: queue_def expirations_def)
  have e: "map (\<lambda>x. expirationTime (heap s' x)) ys = map (\<lambda>x. expirationTime (heap s x)) ys"
    if "set ys \<subseteq> set xs" for ys
  proof (rule map_cong [OF refl])
    fix y assume "y \<in> set ys"
    with that new have "y \<noteq> new" by blast
    then show "expirationTime (heap s' y) = expirationTime (heap s y)" by (rule same)
  qed
  have ea: "map (\<lambda>x. expirationTime (heap s' x)) as = map (\<lambda>x. expirationTime (heap s x)) as"
    and eb: "map (\<lambda>x. expirationTime (heap s' x)) bs = map (\<lambda>x. expirationTime (heap s x)) bs"
    using e [of as] e [of bs] xs by simp_all
  have "sorted (map (\<lambda>x. expirationTime (heap s x)) as @ expirationTime (heap s' new) #
      map (\<lambda>x. expirationTime (heap s x)) bs)"
    using s lo hi by (auto simp: sorted_append)
  then have "sorted (map (\<lambda>x. expirationTime (heap s' x)) (as @ new # bs))"
    by (simp only: map_append list.map ea eb)
  with r' show ?thesis by (simp add: queue_def expirations_def)
qed

lemma schedule_queue:
  fixes opts :: "int option"
  assumes q: "queue s xs"
  defines "e \<equiv> scheduledExpiration opts s"
  defines "new \<equiv> allocated s"
  shows "\<exists>s' as bs. unstable_scheduleCallback cb opts s = Some (new, s') \<and>
     onlyQueue (snd (scheduleStartTime s)) s' \<and> allocated s' = Suc (allocated s) \<and>
     xs = as @ bs \<and> queue s' (as @ new # bs) \<and>
     (\<forall>y\<in>set as. expirationTime (heap s y) \<le> e) \<and>
     (\<forall>y\<in>set bs. e < expirationTime (heap s y)) \<and>
     (\<forall>y. y \<noteq> new \<longrightarrow> callback (heap s' y) = callback (heap s y) \<and>
        priorityLevel (heap s' y) = priorityLevel (heap s y) \<and>
        expirationTime (heap s' y) = expirationTime (heap s y)) \<and>
     callback (heap s' new) = cb \<and> priorityLevel (heap s' new) = currentPriorityLevel s \<and>
     expirationTime (heap s' new) = e"
proof -
  let ?P = "\<lambda>y. expirationTime (heap s y) \<le> e"
  have r: "ring s xs" and srt: "sorted (map (\<lambda>x. expirationTime (heap s x)) xs)"
    using q by (simp_all add: queue_def expirations_def)
  from schedule_ring [OF r, of cb opts]
  obtain s' where u: "unstable_scheduleCallback cb opts s = Some (new, s')"
    and oq: "onlyQueue (snd (scheduleStartTime s)) s'" and a: "allocated s' = Suc (allocated s)"
    and r': "ring s' (takeWhile ?P xs @ new # dropWhile ?P xs)"
    and d: "\<forall>y. y \<noteq> new \<longrightarrow> callback (heap s' y) = callback (heap s y) \<and>
        priorityLevel (heap s' y) = priorityLevel (heap s y) \<and>
        expirationTime (heap s' y) = expirationTime (heap s y)"
    and n: "callback (heap s' new) = cb" "priorityLevel (heap s' new) = currentPriorityLevel s"
     "expirationTime (heap s' new) = e"
    unfolding e_def new_def by blast
  have nx: "new \<notin> set xs" using r by (auto simp: ring_def new_def)
  have lo: "\<forall>y\<in>set (takeWhile ?P xs). expirationTime (heap s y) \<le> e"
    by (auto dest: set_takeWhileD)
  have hi: "\<forall>y\<in>set (dropWhile ?P xs). e < expirationTime (heap s y)"
    using dropWhile_le_sorted [OF srt] by blast
  have "queue s' (takeWhile ?P xs @ new # dropWhile ?P xs)"
    using q r' _ nx
  proof (rule queue_inserted)
    show "xs = takeWhile ?P xs @ dropWhile ?P xs" by simp
  qed (use d n lo hi in \<open>auto simp: less_imp_le\<close>)
  then show ?thesis
    using u oq a lo hi d n
    by (intro exI [of _ s'] exI [of _ "takeWhile ?P xs"] exI [of _ "dropWhile ?P xs"]) simp
qed

lemma continuation_queue:
  assumes q: "queue s xs"
  defines "new \<equiv> allocated s"
  shows "\<exists>s' as bs. insertContinuation c p e s = Some s' \<and>
     onlyQueue s s' \<and> allocated s' = Suc (allocated s) \<and>
     xs = as @ bs \<and> queue s' (as @ new # bs) \<and>
     (\<forall>y\<in>set as. expirationTime (heap s y) < e) \<and>
     (\<forall>y\<in>set bs. e \<le> expirationTime (heap s y)) \<and>
     (\<forall>y. y \<noteq> new \<longrightarrow> callback (heap s' y) = callback (heap s y) \<and>
        priorityLevel (heap s' y) = priorityLevel (heap s y) \<and>
        expirationTime (heap s' y) = expirationTime (heap s y)) \<and>
     callback (heap s' new) = c \<and> priorityLevel (heap s' new) = p \<and>
     expirationTime (heap s' new) = e"
proof -
  let ?P = "\<lambda>y. expirationTime (heap s y) < e"
  have r: "ring s xs" and srt: "sorted (map (\<lambda>x. expirationTime (heap s x)) xs)"
    using q by (simp_all add: queue_def expirations_def)
  from insertContinuation_ring [OF r, of c p e]
  obtain s' where u: "insertContinuation c p e s = Some s'"
    and oq: "onlyQueue s s'" and a: "allocated s' = Suc (allocated s)"
    and r': "ring s' (takeWhile ?P xs @ new # dropWhile ?P xs)"
    and d: "\<forall>y. y \<noteq> new \<longrightarrow> callback (heap s' y) = callback (heap s y) \<and>
        priorityLevel (heap s' y) = priorityLevel (heap s y) \<and>
        expirationTime (heap s' y) = expirationTime (heap s y)"
    and n: "callback (heap s' new) = c" "priorityLevel (heap s' new) = p"
     "expirationTime (heap s' new) = e"
    unfolding new_def by blast
  have nx: "new \<notin> set xs" using r by (auto simp: ring_def new_def)
  have lo: "\<forall>y\<in>set (takeWhile ?P xs). expirationTime (heap s y) < e"
    by (auto dest: set_takeWhileD)
  have hi: "\<forall>y\<in>set (dropWhile ?P xs). e \<le> expirationTime (heap s y)"
    using dropWhile_less_sorted [OF srt] by blast
  have "queue s' (takeWhile ?P xs @ new # dropWhile ?P xs)"
    using q r' _ nx
  proof (rule queue_inserted)
    show "xs = takeWhile ?P xs @ dropWhile ?P xs" by simp
  qed (use d n lo hi in \<open>auto simp: less_imp_le\<close>)
  then show ?thesis
    using u oq a lo hi d n
    by (intro exI [of _ s'] exI [of _ "takeWhile ?P xs"] exI [of _ "dropWhile ?P xs"]) simp
qed

lemma queue_removed:
  assumes q: "queue s xs" and r': "ring s' (remove1 x xs)" and sd: "sameData (heap s) (heap s')"
  shows "queue s' (remove1 x xs)"
proof -
  have "sorted (map (\<lambda>x. expirationTime (heap s x)) (remove1 x xs))"
    using q by (simp add: queue_def expirations_def sorted_map_remove1)
  then show ?thesis
    using r' sameData_D(3) [OF sd] by (simp add: queue_def expirations_def)
qed

lemma unlinkFirst_queue:
  assumes q: "queue s (x # xs)"
  shows "\<exists>s'. unlinkFirst s = Some (x, s') \<and> queue s' xs \<and> onlyQueue s s' \<and>
     allocated s' = allocated s \<and> sameData (heap s) (heap s') \<and>
     nxt (heap s' x) = None \<and> previous (heap s' x) = None \<and>
     isHostCallbackScheduled s' = isHostCallbackScheduled s \<and> hostCallback s' = hostCallback s"
proof -
  have r: "ring s (x # xs)" using q by (simp add: queue_def)
  from unlinkFirst_ring [OF r] obtain s' where u: "unlinkFirst s = Some (x, s')"
    and r': "ring s' xs" and rest: "onlyQueue s s'" "allocated s' = allocated s"
      "sameData (heap s) (heap s')" "nxt (heap s' x) = None" "previous (heap s' x) = None"
      "isHostCallbackScheduled s' = isHostCallbackScheduled s" "hostCallback s' = hostCallback s"
    by blast
  have "queue s' (remove1 x (x # xs))"
    using q _ rest(3) by (rule queue_removed) (simp add: r')
  then show ?thesis using u rest by simp
qed

lemma cancel_queue:
  assumes q: "queue s xs" and x: "x \<in> set xs"
  shows "\<exists>s'. unstable_cancelCallback x s = Some s' \<and> queue s' (remove1 x xs) \<and>
     onlyQueue s s' \<and> allocated s' = allocated s \<and> sameData (heap s) (heap s') \<and>
     nxt (heap s' x) = None \<and> previous (heap s' x) = None \<and>
     isHostCallbackScheduled s' = isHostCallbackScheduled s \<and> hostCallback s' = hostCallback s"
proof -
  have r: "ring s xs" using q by (simp add: queue_def)
  from cancel_ring [OF r x] obtain s' where u: "unstable_cancelCallback x s = Some s'"
    and r': "ring s' (remove1 x xs)" and rest: "onlyQueue s s'" "allocated s' = allocated s"
      "sameData (heap s) (heap s')" "nxt (heap s' x) = None" "previous (heap s' x) = None"
      "isHostCallbackScheduled s' = isHostCallbackScheduled s" "hostCallback s' = hostCallback s"
    by blast
  have "queue s' (remove1 x xs)"
    using q r' rest(3) by (rule queue_removed)
  then show ?thesis using u rest by simp
qed

lemma queue_frame:
  "heap s' = heap s \<Longrightarrow> allocated s' = allocated s \<Longrightarrow>
   firstCallbackNode s' = firstCallbackNode s \<Longrightarrow> queue s' xs = queue s xs"
  by (cases xs) (simp_all add: queue_def ring_def expirations_def)

lemma callbackEntry_simps [simp]:
  "heap (callbackEntry x s) = heap s"
  "allocated (callbackEntry x s) = allocated s"
  "firstCallbackNode (callbackEntry x s) = firstCallbackNode s"
  "currentPriorityLevel (callbackEntry x s) = priorityLevel (heap s x)"
  "currentExpirationTime (callbackEntry x s) = expirationTime (heap s x)"
  "executed (callbackEntry x s) = executed s @ [x]"
  by (simp_all add: callbackEntry_def)

lemma flushFirstCallback_unfold:
  assumes "unlinkFirst s = Some (x, s1)"
    and "exec (callback (heap s1 x)) (callbackEntry x s1) = Some (r, t)"
  shows "flushFirstCallback exec s =
     (case r of
        Thrown \<Rightarrow> Some (Thrown, t\<lparr>currentPriorityLevel := currentPriorityLevel s1,
                                   currentExpirationTime := currentExpirationTime s1\<rparr>)
      | Normal None \<Rightarrow> Some (Normal (), t\<lparr>currentPriorityLevel := currentPriorityLevel s1,
                                   currentExpirationTime := currentExpirationTime s1\<rparr>)
      | Normal (Some c) \<Rightarrow>
          Option.bind (insertContinuation c (priorityLevel (heap s1 x)) (expirationTime (heap s1 x))
              (t\<lparr>currentPriorityLevel := currentPriorityLevel s1,
                 currentExpirationTime := currentExpirationTime s1\<rparr>))
            (\<lambda>s3. Some (Normal (), s3)))"
  using assms
  by (simp add: flushFirstCallback_def callCallback_def Let_def
      split: completion.splits option.splits)

lemma queue_quietHost: "queue quietHost []"
  by (simp add: queue_def expirations_def ring_Nil quietHost_def initialSched_def)

lemma oneQueued_eq:
  "\<exists>s'. unstable_scheduleCallback 7 None quietHost = Some (0, s') \<and> oneQueued = s'"
proof -
  from schedule_queue [OF queue_quietHost, of 7 None]
  obtain s' where "unstable_scheduleCallback 7 None quietHost = Some (allocated quietHost, s')"
    by blast
  moreover have "allocated quietHost = 0" by (simp add: quietHost_def initialSched_def)
  ultimately show ?thesis by (simp add: oneQueued_def)
qed

lemma queue_oneQueued: "queue oneQueued [0]"
proof -
  from schedule_queue [OF queue_quietHost, of 7 None]
  obtain s' as bs where "unstable_scheduleCallback 7 None quietHost = Some (allocated quietHost, s')"
    "[] = as @ bs" "queue s' (as @ allocated quietHost # bs)"
    by blast
  moreover have "allocated quietHost = 0" by (simp add: quietHost_def initialSched_def)
  ultimately show ?thesis by (simp add: oneQueued_def)
qed

lemma allocated_oneQueued: "allocated oneQueued = 1"
proof -
  from schedule_queue [OF queue_quietHost, of 7 None]
  obtain s' where "unstable_scheduleCallback 7 None quietHost = Some (allocated quietHost, s')"
    "allocated s' = Suc (allocated quietHost)"
    by blast
  moreover have "allocated quietHost = 0" by (simp add: quietHost_def initialSched_def)
  ultimately show ?thesis by (simp add: oneQueued_def)
qed

lemma unlinkFirst_first:
  "unlinkFirst s = Some (y, t) \<Longrightarrow> firstCallbackNode s = Some y"
  by (auto simp: unlinkFirst_def Let_def split: Option.bind_splits if_splits)

lemma queue_first:
  "queue s xs \<Longrightarrow> firstCallbackNode s = (case xs of [] \<Rightarrow> None | x # _ \<Rightarrow> Some x)"
  by (cases xs) (simp_all add: queue_def ring_def)

lemma queue_distinct: "queue s xs \<Longrightarrow> distinct xs"
  by (simp add: queue_def ring_def)

lemma queue_allocated: "queue s xs \<Longrightarrow> x \<in> set xs \<Longrightarrow> x < allocated s"
  by (simp add: queue_def ring_def)

lemma queue_hd_least:
  "queue s xs \<Longrightarrow> x \<in> set xs \<Longrightarrow> expirationTime (heap s (hd xs)) \<le> expirationTime (heap s x)"
  by (cases xs) (auto simp: queue_def expirations_def)

lemma scheduleStartTime_event:
  "currentEventStartTime s \<noteq> - 1 \<Longrightarrow> scheduleStartTime s = (currentEventStartTime s, s)"
  by (simp add: scheduleStartTime_def)

lemma eventEntry_simps [simp]:
  "heap (eventEntry p s) = heap s"
  "allocated (eventEntry p s) = allocated s"
  "firstCallbackNode (eventEntry p s) = firstCallbackNode s"
  "currentPriorityLevel (eventEntry p s) = p"
  "currentEventStartTime (eventEntry p s) = clock s (clockReads s)"
  "clockReads (eventEntry p s) = Suc (clockReads s)"
  "clock (eventEntry p s) = clock s"
  by (simp_all add: eventEntry_def getCurrentTime_def)

lemma ring_eventEntry: "ring (eventEntry p s) xs = ring s xs"
  by (cases xs) (simp_all add: ring_def)

lemma quietHost_fields [simp]:
  "clock quietHost k = 0" "clockReads quietHost = 0" "allocated quietHost = 0"
  "currentPriorityLevel quietHost = NormalPriority"
  "currentEventStartTime quietHost = - 1"
  "currentExpirationTime quietHost = - 1"
  "currentDidTimeout quietHost = False"
  "yieldAnswers quietHost k = False"
  by (simp_all add: quietHost_def initialSched_def)

lemma oneQueued_onlyQueue: "onlyQueue (snd (scheduleStartTime quietHost)) oneQueued"
proof -
  have r: "ring quietHost []" using queue_quietHost by (simp add: queue_def)
  from schedule_ring [OF r, of 7 None]
  obtain s' where "unstable_scheduleCallback 7 None quietHost = Some (allocated quietHost, s')"
    "onlyQueue (snd (scheduleStartTime quietHost)) s'"
    by blast
  then show ?thesis by (simp add: oneQueued_def)
qed

lemma oneQueued_expiration: "expirationTime (heap oneQueued 0) = 5000"
proof -
  have r: "ring quietHost []" using queue_quietHost by (simp add: queue_def)
  from schedule_ring [OF r, of 7 None]
  obtain s' where "unstable_scheduleCallback 7 None quietHost = Some (allocated quietHost, s')"
    "expirationTime (heap s' (allocated quietHost)) = scheduledExpiration None quietHost"
    by blast
  then show ?thesis
    by (simp add: oneQueued_def scheduledExpiration_def scheduleStartTime_fst
        priorityTimeout_table NormalPriority_def ImmediatePriority_def UserBlockingPriority_def)
qed

lemma toInt32_floor:
  assumes "0 \<le> y" "y < 2 ^ 31"
  shows "toInt32 y = \<lfloor>y\<rfloor>"
proof -
  have 1: "0 \<le> \<lfloor>y\<rfloor>" using assms(1) by simp
  have "\<lfloor>y\<rfloor> < 2 ^ 31" using assms(2) by (simp add: floor_less_iff)
  then have 2: "\<lfloor>y\<rfloor> < 2 ^ 31" "\<lfloor>y\<rfloor> < 2 ^ 32" by simp_all
  have "\<lfloor>y\<rfloor> mod 2 ^ 32 = \<lfloor>y\<rfloor>" using 1 2 by simp
  then show ?thesis using assms(1) 2 by (simp add: toInt32_def Let_def)
qed

lemma computeExpirationBucket_window:
  assumes "0 \<le> (MAGIC_NUMBER_OFFSET - c + e / UNIT_SIZE) / (b / UNIT_SIZE)"
    and "(MAGIC_NUMBER_OFFSET - c + e / UNIT_SIZE) / (b / UNIT_SIZE) < 2 ^ 31"
  shows "computeExpirationBucket c e b =
     MAGIC_NUMBER_OFFSET - (of_int (expirationWindow c e b) + 1) * (b / UNIT_SIZE)"
  using toInt32_floor [OF assms]
  by (simp add: computeExpirationBucket_def ceiling_to_def expirationWindow_def)

lemma floor_bucket_bounds:
  fixes x u :: rat
  assumes "0 < u"
  shows "of_int \<lfloor>x / u\<rfloor> * u \<le> x" "x < (of_int \<lfloor>x / u\<rfloor> + 1) * u"
proof -
  have "of_int \<lfloor>x / u\<rfloor> \<le> x / u" by (rule of_int_floor_le)
  then show "of_int \<lfloor>x / u\<rfloor> * u \<le> x"
    using assms by (simp only: pos_le_divide_eq)
  have "x / u < of_int \<lfloor>x / u\<rfloor> + 1" by linarith
  then show "x < (of_int \<lfloor>x / u\<rfloor> + 1) * u"
    using assms by (simp only: pos_divide_less_eq)
qed

lemma window_mono:
  assumes "0 < b" "c1 \<le> c2"
  shows "expirationWindow c2 e b \<le> expirationWindow c1 e b"
proof -
  have "0 < b / UNIT_SIZE" using assms(1) by (simp add: UNIT_SIZE_def)
  then have "(MAGIC_NUMBER_OFFSET - c2 + e / UNIT_SIZE) / (b / UNIT_SIZE) \<le>
      (MAGIC_NUMBER_OFFSET - c1 + e / UNIT_SIZE) / (b / UNIT_SIZE)"
    using assms(2) by (intro divide_right_mono) simp_all
  then show ?thesis unfolding expirationWindow_def by (rule floor_mono)
qed

lemma magic_value: "MAGIC_NUMBER_OFFSET = 1073741822"
  by (simp add: MAGIC_NUMBER_OFFSET_def MAX_SIGNED_31_BIT_INT_def maxSigned31BitInt_def)

lemma msToExpirationTime_values:
  "msToExpirationTime 0 = 1073741822" "msToExpirationTime 50 = 1073741817"
  "msToExpirationTime 250 = 1073741797"
  by (simp_all add: msToExpirationTime_def toInt32_def magic_value UNIT_SIZE_def Let_def)

lemma ensureHost_frame:
  assumes "ensureHostCallbackIsScheduled s = Some s'"
  shows "onlyQueue s s'" "heap s' = heap s" "firstCallbackNode s' = firstCallbackNode s"
    "allocated s' = allocated s"
  using assms
  by (auto simp: ensureHostCallbackIsScheduled_def requestHostCallback_def cancelHostCallback_def
      onlyQueue_def split: if_splits option.splits)

lemma linkBefore_frame:
  assumes "linkBefore n f found s = Some s'"
  shows "onlyQueue s s'" "sameData (heap s) (heap s')" "allocated s' = allocated s"
proof -
  have "onlyQueue s s' \<and> sameData (heap s) (heap s') \<and> allocated s' = allocated s"
  proof (cases "found = Some f")
    case True
    with assms obtain t p where t: "ensureHostCallbackIsScheduled (s\<lparr>firstCallbackNode := Some n\<rparr>) = Some t"
      and s': "s' = t\<lparr>heap := linked (heap t) n f p\<rparr>"
      by (auto simp: linkBefore_def linked_def Let_def split: Option.bind_splits)
    from ensureHost_frame [OF t] show ?thesis
      by (simp add: s' onlyQueue_def)
  next
    case False
    with assms obtain p where "s' = s\<lparr>heap := linked (heap s) n (case found of None \<Rightarrow> f | Some m \<Rightarrow> m) p\<rparr>"
      by (cases found) (auto simp: linkBefore_def linked_def Let_def split: Option.bind_splits)
    then show ?thesis by (simp add: onlyQueue_def)
  qed
  then show "onlyQueue s s'" "sameData (heap s) (heap s')" "allocated s' = allocated s"
    by simp_all
qed

lemma insertContinuation_frame:
  assumes "insertContinuation c p e s = Some s'"
  shows "onlyQueue s s'"
proof (cases "firstCallbackNode s")
  case None
  with assms show ?thesis
    by (auto simp: insertContinuation_def newCallbackNode_def onlyQueue_def)
next
  case (Some f)
  let ?s1 = "snd (newCallbackNode c p e s)"
  from assms Some obtain found where
    "linkBefore (allocated s) f found ?s1 = Some s'"
    by (auto simp: insertContinuation_def split_beta split: Option.bind_splits)
  from linkBefore_frame(1) [OF this] show ?thesis
    by (simp add: onlyQueue_def newCallbackNode_def)
qed

lemma unlinkFirst_frame:
  assumes "unlinkFirst s = Some (x, s1)"
  shows "onlyQueue s s1" "sameData (heap s) (heap s1)" "allocated s1 = allocated s"
  using assms
  by (auto simp: unlinkFirst_def Let_def onlyQueue_def split: Option.bind_splits if_splits)

lemma flushFirstCallback_cases:
  assumes "flushFirstCallback exec s = Some (r, s')"
  obtains x s1 r0 t where "unlinkFirst s = Some (x, s1)"
    "exec (callback (heap s1 x)) (callbackEntry x s1) = Some (r0, t)"
    "(r0 = Thrown \<and> r = Thrown \<and>
        s' = t\<lparr>currentPriorityLevel := currentPriorityLevel s1,
                currentExpirationTime := currentExpirationTime s1\<rparr>) \<or>
     (r0 = Normal None \<and> r = Normal () \<and>
        s' = t\<lparr>currentPriorityLevel := currentPriorityLevel s1,
                currentExpirationTime := currentExpirationTime s1\<rparr>) \<or>
     (\<exists>c. r0 = Normal (Some c) \<and> r = Normal () \<and>
        insertContinuation c (priorityLevel (heap s1 x)) (expirationTime (heap s1 x))
          (t\<lparr>currentPriorityLevel := currentPriorityLevel s1,
             currentExpirationTime := currentExpirationTime s1\<rparr>) = Some s')"
proof -
  from assms obtain x s1 where u: "unlinkFirst s = Some (x, s1)"
    by (auto simp: flushFirstCallback_def split: Option.bind_splits)
  from assms u obtain r0 t where e: "exec (callback (heap s1 x)) (callbackEntry x s1) = Some (r0, t)"
    by (auto simp: flushFirstCallback_def callCallback_def Let_def split: Option.bind_splits)
  from assms flushFirstCallback_unfold [of s x s1 exec r0 t, OF u e]
  have "(case r0 of
        Thrown \<Rightarrow> Some (Thrown, t\<lparr>currentPriorityLevel := currentPriorityLevel s1,
                                   currentExpirationTime := currentExpirationTime s1\<rparr>)
      | Normal None \<Rightarrow> Some (Normal (), t\<lparr>currentPriorityLevel := currentPriorityLevel s1,
                                   currentExpirationTime := currentExpirationTime s1\<rparr>)
      | Normal (Some c) \<Rightarrow>
          Option.bind (insertContinuation c (priorityLevel (heap s1 x)) (expirationTime (heap s1 x))
              (t\<lparr>currentPriorityLevel := currentPriorityLevel s1,
                 currentExpirationTime := currentExpirationTime s1\<rparr>))
            (\<lambda>s3. Some (Normal (), s3))) = Some (r, s')"
    by simp
  then have "(r0 = Thrown \<and> r = Thrown \<and>
        s' = t\<lparr>currentPriorityLevel := currentPriorityLevel s1,
                currentExpirationTime := currentExpirationTime s1\<rparr>) \<or>
     (r0 = Normal None \<and> r = Normal () \<and>
        s' = t\<lparr>currentPriorityLevel := currentPriorityLevel s1,
                currentExpirationTime := currentExpirationTime s1\<rparr>) \<or>
     (\<exists>c. r0 = Normal (Some c) \<and> r = Normal () \<and>
        insertContinuation c (priorityLevel (heap s1 x)) (expirationTime (heap s1 x))
          (t\<lparr>currentPriorityLevel := currentPriorityLevel s1,
             currentExpirationTime := currentExpirationTime s1\<rparr>) = Some s')"
    by (auto split: completion.splits option.splits Option.bind_splits)
  with u e that show thesis by blast
qed

lemma flushFirstCallback_ambient:
  assumes "flushFirstCallback exec s = Some (r, s')"
  shows "currentPriorityLevel s' = currentPriorityLevel s"
    "currentExpirationTime s' = currentExpirationTime s"
proof -
  from assms obtain x s1 r0 t where u: "unlinkFirst s = Some (x, s1)"
    and c: "(r0 = Thrown \<and> r = Thrown \<and>
        s' = t\<lparr>currentPriorityLevel := currentPriorityLevel s1,
                currentExpirationTime := currentExpirationTime s1\<rparr>) \<or>
     (r0 = Normal None \<and> r = Normal () \<and>
        s' = t\<lparr>currentPriorityLevel := currentPriorityLevel s1,
                currentExpirationTime := currentExpirationTime s1\<rparr>) \<or>
     (\<exists>c. r0 = Normal (Some c) \<and> r = Normal () \<and>
        insertContinuation c (priorityLevel (heap s1 x)) (expirationTime (heap s1 x))
          (t\<lparr>currentPriorityLevel := currentPriorityLevel s1,
             currentExpirationTime := currentExpirationTime s1\<rparr>) = Some s')"
    by (rule flushFirstCallback_cases)
  have 1: "currentPriorityLevel s1 = currentPriorityLevel s"
    "currentExpirationTime s1 = currentExpirationTime s"
    using unlinkFirst_frame(1) [OF u] by (simp_all add: onlyQueue_def)
  from c have "currentPriorityLevel s' = currentPriorityLevel s1 \<and>
    currentExpirationTime s' = currentExpirationTime s1"
  proof (elim disjE exE conjE)
    fix c assume "insertContinuation c (priorityLevel (heap s1 x)) (expirationTime (heap s1 x))
          (t\<lparr>currentPriorityLevel := currentPriorityLevel s1,
             currentExpirationTime := currentExpirationTime s1\<rparr>) = Some s'"
    from insertContinuation_frame [OF this] show ?thesis by (simp add: onlyQueue_def)
  qed simp_all
  with 1 show "currentPriorityLevel s' = currentPriorityLevel s"
    "currentExpirationTime s' = currentExpirationTime s" by simp_all
qed

lemma flushImmediateLoop_ambient:
  assumes "flushImmediateLoop exec s = Some y"
  shows "currentPriorityLevel (snd y) = currentPriorityLevel s \<and>
   currentExpirationTime (snd y) = currentExpirationTime s"
proof (rule flushImmediateLoop.raw_induct
    [where P = "\<lambda>exec s y. currentPriorityLevel (snd y) = currentPriorityLevel s \<and>
       currentExpirationTime (snd y) = currentExpirationTime s", OF _ assms])
  fix loop :: "executor \<Rightarrow> sched \<Rightarrow> (unit completion \<times> sched) option"
  fix exec s y
  assume IH: "\<And>exec s y. loop exec s = Some y \<Longrightarrow>
      currentPriorityLevel (snd y) = currentPriorityLevel s \<and>
      currentExpirationTime (snd y) = currentExpirationTime s"
  assume eq: "(case flushFirstCallback exec s of None \<Rightarrow> None
      | Some (Normal u, s1) \<Rightarrow>
          if firstIsImmediate s1 then loop exec s1 else Some (Normal (), s1)
      | Some (Thrown, s1) \<Rightarrow> Some (Thrown, s1)) = Some y"
  from eq obtain r s1 where f: "flushFirstCallback exec s = Some (r, s1)"
    by (auto split: option.splits)
  note a = flushFirstCallback_ambient [OF f]
  show "currentPriorityLevel (snd y) = currentPriorityLevel s \<and>
      currentExpirationTime (snd y) = currentExpirationTime s"
  proof (cases r)
    case Thrown
    with eq f a show ?thesis by auto
  next
    case (Normal u)
    show ?thesis
    proof (cases "firstIsImmediate s1")
      case True
      with eq f Normal have "loop exec s1 = Some y" by simp
      from IH [OF this] a show ?thesis by simp
    next
      case False
      with eq f Normal a show ?thesis by auto
    qed
  qed
qed

lemma requestRemaining_frame:
  assumes "requestRemaining s = Some s'"
  shows "onlyQueue s s'" "heap s' = heap s" "firstCallbackNode s' = firstCallbackNode s"
    "allocated s' = allocated s"
proof -
  have "onlyQueue s s' \<and> heap s' = heap s \<and> firstCallbackNode s' = firstCallbackNode s \<and>
    allocated s' = allocated s"
  proof (cases "firstCallbackNode s")
    case None
    with assms show ?thesis by (auto simp: requestRemaining_def onlyQueue_def)
  next
    case (Some f)
    with assms have "ensureHostCallbackIsScheduled s = Some s'"
      by (simp add: requestRemaining_def)
    from ensureHost_frame [OF this] show ?thesis by simp
  qed
  then show "onlyQueue s s'" "heap s' = heap s" "firstCallbackNode s' = firstCallbackNode s"
    "allocated s' = allocated s" by simp_all
qed

lemma flushImmediateWork_cases:
  assumes "flushImmediateWork exec s = Some (r, s')"
  obtains (skip) "\<not> (currentEventStartTime s = - 1 \<and> firstIsImmediate s)" "r = Normal ()" "s' = s"
  | (run) s1 where "currentEventStartTime s = - 1" "firstIsImmediate s"
      "flushImmediateLoop exec (s\<lparr>isExecutingCallback := True\<rparr>) = Some (r, s1)"
      "requestRemaining (s1\<lparr>isExecutingCallback := False\<rparr>) = Some s'"
proof (cases "currentEventStartTime s = - 1 \<and> firstIsImmediate s")
  case False
  with assms have "r = Normal ()" "s' = s" by (simp_all add: flushImmediateWork_def)
  with False show thesis by (rule skip)
next
  case True
  with assms have b: "Option.bind (flushImmediateLoop exec (s\<lparr>isExecutingCallback := True\<rparr>))
      (\<lambda>(r, s1). Option.bind (requestRemaining (s1\<lparr>isExecutingCallback := False\<rparr>))
         (\<lambda>s2. Some (r, s2))) = Some (r, s')"
    by (simp add: flushImmediateWork_def)
  then obtain y where y: "flushImmediateLoop exec (s\<lparr>isExecutingCallback := True\<rparr>) = Some y"
    by (cases "flushImmediateLoop exec (s\<lparr>isExecutingCallback := True\<rparr>)") simp_all
  obtain r1 s1 where ys: "y = (r1, s1)" by (cases y)
  from b y ys obtain s2 where "requestRemaining (s1\<lparr>isExecutingCallback := False\<rparr>) = Some s2"
    and "r1 = r" "s2 = s'"
    by (cases "requestRemaining (s1\<lparr>isExecutingCallback := False\<rparr>)") simp_all
  with True y ys show thesis by (intro run [of s1]) simp_all
qed

lemma flushImmediateWork_ambient:
  assumes "flushImmediateWork exec s = Some (r, s')"
  shows "currentPriorityLevel s' = currentPriorityLevel s"
    "currentExpirationTime s' = currentExpirationTime s"
proof -
  from assms have "currentPriorityLevel s' = currentPriorityLevel s \<and>
    currentExpirationTime s' = currentExpirationTime s"
  proof (cases rule: flushImmediateWork_cases)
    case skip
    then show ?thesis by simp
  next
    case (run s1)
    from flushImmediateLoop_ambient [OF run(3)] requestRemaining_frame(1) [OF run(4)]
    show ?thesis by (simp add: onlyQueue_def)
  qed
  then show "currentPriorityLevel s' = currentPriorityLevel s"
    "currentExpirationTime s' = currentExpirationTime s" by simp_all
qed

lemma flushImmediateWork_empty:
  "firstCallbackNode s = None \<Longrightarrow> flushImmediateWork exec s = Some (Normal (), s)"
  by (simp add: flushImmediateWork_def firstIsImmediate_def)

lemma firstIsImmediate_frame:
  "sameData (heap s) (heap s') \<Longrightarrow> firstCallbackNode s' = firstCallbackNode s \<Longrightarrow>
   firstIsImmediate s' = firstIsImmediate s"
  by (cases "firstCallbackNode s") (simp_all add: firstIsImmediate_def sameData_def)

lemma flushFirstCallback_immediate_returns:
  assumes nt: "immediateCallbacksReturn exec" and im: "firstIsImmediate s"
    and f: "flushFirstCallback exec s = Some (r, s')"
  shows "r = Normal ()"
proof -
  from f obtain x s1 r0 t where u: "unlinkFirst s = Some (x, s1)"
    and e: "exec (callback (heap s1 x)) (callbackEntry x s1) = Some (r0, t)"
    and c: "(r0 = Thrown \<and> r = Thrown \<and>
        s' = t\<lparr>currentPriorityLevel := currentPriorityLevel s1,
                currentExpirationTime := currentExpirationTime s1\<rparr>) \<or>
     (r0 = Normal None \<and> r = Normal () \<and>
        s' = t\<lparr>currentPriorityLevel := currentPriorityLevel s1,
                currentExpirationTime := currentExpirationTime s1\<rparr>) \<or>
     (\<exists>c. r0 = Normal (Some c) \<and> r = Normal () \<and>
        insertContinuation c (priorityLevel (heap s1 x)) (expirationTime (heap s1 x))
          (t\<lparr>currentPriorityLevel := currentPriorityLevel s1,
             currentExpirationTime := currentExpirationTime s1\<rparr>) = Some s')"
    by (rule flushFirstCallback_cases)
  have "firstCallbackNode s = Some x" using u by (rule unlinkFirst_first)
  with im have "priorityLevel (heap s x) = ImmediatePriority"
    by (simp add: firstIsImmediate_def)
  then have "currentPriorityLevel (callbackEntry x s1) = ImmediatePriority"
    using sameData_D(2) [OF unlinkFirst_frame(2) [OF u]] by simp
  with nt e have "r0 \<noteq> Thrown" by (auto simp: immediateCallbacksReturn_def)
  with c show ?thesis by auto
qed

lemma flushImmediateLoop_post:
  assumes nt: "immediateCallbacksReturn exec"
    and run: "flushImmediateLoop exec s = Some y"
  shows "exec = exec \<longrightarrow> firstIsImmediate s \<longrightarrow>
    fst y = Normal () \<and> \<not> firstIsImmediate (snd y)"
proof (rule flushImmediateLoop.raw_induct
    [where P = "\<lambda>e s y. e = exec \<longrightarrow> firstIsImmediate s \<longrightarrow>
       fst y = Normal () \<and> \<not> firstIsImmediate (snd y)", OF _ run])
  fix loop :: "executor \<Rightarrow> sched \<Rightarrow> (unit completion \<times> sched) option"
  fix e s y
  assume IH: "\<And>e s y. loop e s = Some y \<Longrightarrow> e = exec \<longrightarrow> firstIsImmediate s \<longrightarrow>
      fst y = Normal () \<and> \<not> firstIsImmediate (snd y)"
  assume eq: "(case flushFirstCallback e s of None \<Rightarrow> None
      | Some (Normal u, s1) \<Rightarrow>
          if firstIsImmediate s1 then loop e s1 else Some (Normal (), s1)
      | Some (Thrown, s1) \<Rightarrow> Some (Thrown, s1)) = Some y"
  show "e = exec \<longrightarrow> firstIsImmediate s \<longrightarrow>
      fst y = Normal () \<and> \<not> firstIsImmediate (snd y)"
  proof (intro impI)
    assume e: "e = exec" and im: "firstIsImmediate s"
    from eq obtain r s1 where f: "flushFirstCallback e s = Some (r, s1)"
      by (auto split: option.splits)
    have r: "r = Normal ()"
      using flushFirstCallback_immediate_returns [OF nt im] f e by simp
    show "fst y = Normal () \<and> \<not> firstIsImmediate (snd y)"
    proof (cases "firstIsImmediate s1")
      case True
      with eq f r have "loop e s1 = Some y" by simp
      from IH [OF this] e True show ?thesis by simp
    next
      case False
      with eq f r show ?thesis by auto
    qed
  qed
qed

lemma flushImmediateWork_post:
  assumes nt: "immediateCallbacksReturn exec"
    and f: "flushImmediateWork exec s = Some (r, s')"
    and ev: "currentEventStartTime s' = - 1"
  shows "\<not> firstIsImmediate s'"
  using f
proof (cases rule: flushImmediateWork_cases)
  case skip
  with ev show ?thesis by simp
next
  case (run s1)
  have "firstIsImmediate (s\<lparr>isExecutingCallback := True\<rparr>)"
    using run(2) firstIsImmediate_frame [of s "s\<lparr>isExecutingCallback := True\<rparr>"] by simp
  with flushImmediateLoop_post [OF nt run(3)] have "\<not> firstIsImmediate s1" by simp
  moreover have "firstIsImmediate s' = firstIsImmediate (s1\<lparr>isExecutingCallback := False\<rparr>)"
    using requestRemaining_frame [OF run(4)]
    by (intro firstIsImmediate_frame) simp_all
  moreover have "firstIsImmediate (s1\<lparr>isExecutingCallback := False\<rparr>) = firstIsImmediate s1"
    by (intro firstIsImmediate_frame) simp_all
  ultimately show ?thesis by simp
qed


lemma immediateCallbacksReturn_idleExec: "immediateCallbacksReturn idleExec"
  by (simp add: immediateCallbacksReturn_def idleExec_def)



lemma onlyQueue_paused: "onlyQueue s s' \<Longrightarrow> paused s' = paused s"
  by (simp add: onlyQueue_def paused_def)











lemma orderly_idleExec: "orderly idleExec"
  unfolding orderly_def idleExec_def by auto








section \<open>The claims\<close>

text \<open>
  Claim C4. \<^verbatim>\<open>unstable_scheduleCallback\<close> gives the new item the expiration time
  start time plus timeout. The start time is the event start time when an event is
  active and the clock otherwise. The timeout is \<^verbatim>\<open>options.timeout\<close> when it is a
  number, and otherwise the default of the ambient priority level: \<open>-1\<close> for Immediate,
  \<open>250\<close> for UserBlocking, \<open>5000\<close> for Normal, \<open>10000\<close> for Low and \<open>1073741823\<close> for Idle
  (and \<open>5000\<close> for a level that is none of the five). On every well-formed queue the
  call returns the new node.
\<close>

theorem scheduleCallback_expiration:
  assumes "ring s xs"
  shows "\<exists>s'. unstable_scheduleCallback cb opts s = Some (allocated s, s') \<and>
     expirationTime (heap s' (allocated s)) =
       (if currentEventStartTime s \<noteq> - 1 then currentEventStartTime s
        else clock s (clockReads s)) +
       (case opts of
          Some timeout \<Rightarrow> timeout
        | None \<Rightarrow>
            if currentPriorityLevel s = ImmediatePriority then - 1
            else if currentPriorityLevel s = UserBlockingPriority then 250
            else if currentPriorityLevel s = NormalPriority then 5000
            else if currentPriorityLevel s = LowPriority then 10000
            else if currentPriorityLevel s = IdlePriority then 1073741823
            else 5000)"
proof -
  from schedule_ring [OF assms, of cb opts]
  obtain s' where "unstable_scheduleCallback cb opts s = Some (allocated s, s')"
    and "expirationTime (heap s' (allocated s)) = scheduledExpiration opts s"
    by blast
  then show ?thesis
    by (auto simp: scheduledExpiration_def scheduleStartTime_fst priorityTimeout_table
        split: option.splits)
qed

theorem scheduleCallback_expiration_witness:
  "ring (initialSched False (\<lambda>k. 100) (\<lambda>k. False)) [] \<and>
   map_option (\<lambda>(h, s'). (h, expirationTime (heap s' h)))
     (unstable_scheduleCallback 7 None (initialSched False (\<lambda>k. 100) (\<lambda>k. False))) =
     Some (0, 5100) \<and>
   map_option (\<lambda>(h, s'). (h, expirationTime (heap s' h)))
     (unstable_scheduleCallback 7 (Some 30) (initialSched False (\<lambda>k. 100) (\<lambda>k. False))) =
     Some (0, 130)"
proof -
  let ?s = "initialSched False (\<lambda>k. 100) (\<lambda>k. False)"
  have r: "ring ?s []" by (rule ring_initialSched)
  have a: "allocated ?s = 0" "currentEventStartTime ?s = - 1" "clock ?s (clockReads ?s) = 100"
    "currentPriorityLevel ?s = NormalPriority"
    by (simp_all add: initialSched_def)
  have n: "NormalPriority \<noteq> ImmediatePriority" "NormalPriority \<noteq> UserBlockingPriority"
    by (simp_all add: NormalPriority_def ImmediatePriority_def UserBlockingPriority_def)
  from scheduleCallback_expiration [OF r, of 7 None]
    scheduleCallback_expiration [OF r, of 7 "Some 30"]
  show ?thesis using r by (auto simp: a n)
qed

text \<open>
  Claim C1. The queue stays sorted by ascending expiration time under every operation
  that changes it. \<^verbatim>\<open>unstable_scheduleCallback\<close> puts the new node after all nodes of
  smaller or equal expiration time and before all nodes of greater expiration time, so
  it comes last among equals. When the callback of the first node returns a
  continuation, \<^verbatim>\<open>flushFirstCallback\<close> puts a new node with the callback's priority
  level and expiration time after all nodes of smaller expiration time and before all
  nodes of equal or greater expiration time, so it comes first among equals. Taking
  the first node out and cancelling a node keep the queue sorted as well.
\<close>

theorem queue_stays_sorted:
  assumes "queue s xs"
  shows
    "(\<exists>s' as bs. unstable_scheduleCallback cb opts s = Some (allocated s, s') \<and>
        xs = as @ bs \<and> queue s' (as @ allocated s # bs) \<and>
        (\<forall>y\<in>set as. expirationTime (heap s' y) \<le> expirationTime (heap s' (allocated s))) \<and>
        (\<forall>y\<in>set bs. expirationTime (heap s' (allocated s)) < expirationTime (heap s' y))) \<and>
     (\<forall>x xs' s1 c t ys.
        xs = x # xs' \<and> unlinkFirst s = Some (x, s1) \<and>
        exec (callback (heap s1 x)) (callbackEntry x s1) = Some (Normal (Some c), t) \<and>
        queue t ys \<longrightarrow>
        (\<exists>s' as bs. flushFirstCallback exec s = Some (Normal (), s') \<and>
           ys = as @ bs \<and> queue s' (as @ allocated t # bs) \<and>
           callback (heap s' (allocated t)) = c \<and>
           priorityLevel (heap s' (allocated t)) = priorityLevel (heap s x) \<and>
           expirationTime (heap s' (allocated t)) = expirationTime (heap s x) \<and>
           (\<forall>y\<in>set as. expirationTime (heap s' y) < expirationTime (heap s x)) \<and>
           (\<forall>y\<in>set bs. expirationTime (heap s x) \<le> expirationTime (heap s' y)))) \<and>
     (\<forall>x xs'. xs = x # xs' \<longrightarrow> (\<exists>s1. unlinkFirst s = Some (x, s1) \<and> queue s1 xs')) \<and>
     (\<forall>x\<in>set xs. \<exists>s'. unstable_cancelCallback x s = Some s' \<and> queue s' (remove1 x xs))"
proof (intro conjI allI impI ballI)
  have nx: "allocated s \<notin> set xs" using assms by (auto simp: queue_def ring_def)
  from schedule_queue [OF assms, of cb opts]
  obtain s' as bs where
    u: "unstable_scheduleCallback cb opts s = Some (allocated s, s')" and xs: "xs = as @ bs"
    and q': "queue s' (as @ allocated s # bs)"
    and lo: "\<forall>y\<in>set as. expirationTime (heap s y) \<le> scheduledExpiration opts s"
    and hi: "\<forall>y\<in>set bs. scheduledExpiration opts s < expirationTime (heap s y)"
    and d: "\<forall>y. y \<noteq> allocated s \<longrightarrow> expirationTime (heap s' y) = expirationTime (heap s y)"
    and n: "expirationTime (heap s' (allocated s)) = scheduledExpiration opts s"
    by blast
  have same: "expirationTime (heap s' y) = expirationTime (heap s y)" if "y \<in> set xs" for y
  proof -
    from that nx have "y \<noteq> allocated s" by blast
    with d show ?thesis by blast
  qed
  have lo': "\<forall>y\<in>set as. expirationTime (heap s' y) \<le> expirationTime (heap s' (allocated s))"
    using lo same by (simp add: xs n)
  have hi': "\<forall>y\<in>set bs. expirationTime (heap s' (allocated s)) < expirationTime (heap s' y)"
    using hi same by (simp add: xs n)
  show "\<exists>s' as bs. unstable_scheduleCallback cb opts s = Some (allocated s, s') \<and>
        xs = as @ bs \<and> queue s' (as @ allocated s # bs) \<and>
        (\<forall>y\<in>set as. expirationTime (heap s' y) \<le> expirationTime (heap s' (allocated s))) \<and>
        (\<forall>y\<in>set bs. expirationTime (heap s' (allocated s)) < expirationTime (heap s' y))"
    using u xs q' lo' hi' by blast
next
  fix x xs' s1 c t ys
  assume h: "xs = x # xs' \<and> unlinkFirst s = Some (x, s1) \<and>
        exec (callback (heap s1 x)) (callbackEntry x s1) = Some (Normal (Some c), t) \<and>
        queue t ys"
  then have h1: "unlinkFirst s = Some (x, s1)"
    and h2: "exec (callback (heap s1 x)) (callbackEntry x s1) = Some (Normal (Some c), t)"
    and h3: "queue t ys" and h4: "xs = x # xs'"
    by simp_all
  from unlinkFirst_queue [of s x xs'] assms h4 h1
  have sd: "sameData (heap s) (heap s1)" by auto
  let ?t = "t\<lparr>currentPriorityLevel := currentPriorityLevel s1,
               currentExpirationTime := currentExpirationTime s1\<rparr>"
  have q: "queue ?t ys" using h3 queue_frame [of ?t t ys] by simp
  have ny: "allocated t \<notin> set ys" using h3 by (auto simp: queue_def ring_def)
  from continuation_queue [OF q, of c "priorityLevel (heap s1 x)" "expirationTime (heap s1 x)"]
  obtain s' as bs where
    i: "insertContinuation c (priorityLevel (heap s1 x)) (expirationTime (heap s1 x)) ?t = Some s'"
    and ys: "ys = as @ bs" and q': "queue s' (as @ allocated t # bs)"
    and lo: "\<forall>y\<in>set as. expirationTime (heap t y) < expirationTime (heap s1 x)"
    and hi: "\<forall>y\<in>set bs. expirationTime (heap s1 x) \<le> expirationTime (heap t y)"
    and d: "\<forall>y. y \<noteq> allocated t \<longrightarrow> expirationTime (heap s' y) = expirationTime (heap t y)"
    and n: "callback (heap s' (allocated t)) = c"
    "priorityLevel (heap s' (allocated t)) = priorityLevel (heap s1 x)"
    "expirationTime (heap s' (allocated t)) = expirationTime (heap s1 x)"
    by auto
  have same: "expirationTime (heap s' y) = expirationTime (heap t y)" if "y \<in> set ys" for y
  proof -
    from that ny have "y \<noteq> allocated t" by blast
    with d show ?thesis by blast
  qed
  have f: "flushFirstCallback exec s = Some (Normal (), s')"
    using flushFirstCallback_unfold [of s x s1 exec "Normal (Some c)" t, OF h1 h2] i by simp
  have n': "priorityLevel (heap s' (allocated t)) = priorityLevel (heap s x)"
    "expirationTime (heap s' (allocated t)) = expirationTime (heap s x)"
    using n sameData_D [OF sd] by simp_all
  have lo': "\<forall>y\<in>set as. expirationTime (heap s' y) < expirationTime (heap s x)"
    using lo same sameData_D(3) [OF sd] by (simp add: ys)
  have hi': "\<forall>y\<in>set bs. expirationTime (heap s x) \<le> expirationTime (heap s' y)"
    using hi same sameData_D(3) [OF sd] by (simp add: ys)
  show "\<exists>s' as bs. flushFirstCallback exec s = Some (Normal (), s') \<and>
           ys = as @ bs \<and> queue s' (as @ allocated t # bs) \<and>
           callback (heap s' (allocated t)) = c \<and>
           priorityLevel (heap s' (allocated t)) = priorityLevel (heap s x) \<and>
           expirationTime (heap s' (allocated t)) = expirationTime (heap s x) \<and>
           (\<forall>y\<in>set as. expirationTime (heap s' y) < expirationTime (heap s x)) \<and>
           (\<forall>y\<in>set bs. expirationTime (heap s x) \<le> expirationTime (heap s' y))"
    using f ys q' n(1) n' lo' hi' by blast
next
  fix x xs' assume "xs = x # xs'"
  with unlinkFirst_queue [of s x xs'] assms
  show "\<exists>s1. unlinkFirst s = Some (x, s1) \<and> queue s1 xs'" by blast
next
  fix x assume "x \<in> set xs"
  from cancel_queue [OF assms this]
  show "\<exists>s'. unstable_cancelCallback x s = Some s' \<and> queue s' (remove1 x xs)" by blast
qed

theorem queue_stays_sorted_witness:
  "queue oneQueued [0] \<and>
   (\<exists>s' as bs. unstable_scheduleCallback 8 None oneQueued = Some (1, s') \<and>
      [0] = as @ bs \<and> queue s' (as @ 1 # bs)) \<and>
   (\<exists>s'. flushFirstCallback (\<lambda>c s. Some (Normal (Some 9), s)) oneQueued = Some (Normal (), s') \<and>
      queue s' [1] \<and> callback (heap s' 1) = 9 \<and>
      priorityLevel (heap s' 1) = priorityLevel (heap oneQueued 0) \<and>
      expirationTime (heap s' 1) = expirationTime (heap oneQueued 0)) \<and>
   (\<exists>s'. unstable_cancelCallback 0 oneQueued = Some s' \<and> queue s' [])"
proof -
  let ?exec = "\<lambda>c s. Some (Normal (Some (9::nat)), s::sched)"
  note T = queue_stays_sorted [OF queue_oneQueued, of 8 None ?exec]
  note T1 = T [THEN conjunct1] and T2 = T [THEN conjunct2, THEN conjunct1]
    and T3 = T [THEN conjunct2, THEN conjunct2, THEN conjunct1]
    and T4 = T [THEN conjunct2, THEN conjunct2, THEN conjunct2]
  have 1: "\<exists>s' as bs. unstable_scheduleCallback 8 None oneQueued = Some (1, s') \<and>
      [0] = as @ bs \<and> queue s' (as @ 1 # bs)"
    using T1 unfolding allocated_oneQueued by blast
  from T3 obtain s1 where u: "unlinkFirst oneQueued = Some (0, s1)" and q1: "queue s1 []"
    by blast
  have a1: "allocated s1 = 1"
    using unlinkFirst_queue [OF queue_oneQueued] u allocated_oneQueued by auto
  have q1': "queue (callbackEntry 0 s1) []"
    using q1 queue_frame [of "callbackEntry 0 s1" s1 "[]"] by simp
  have a1': "allocated (callbackEntry 0 s1) = 1" using a1 by simp
  have e: "?exec (callback (heap s1 0)) (callbackEntry 0 s1) =
      Some (Normal (Some 9), callbackEntry 0 s1)"
    by simp
  from T2 [rule_format, of 0 "[]" s1 9 "callbackEntry 0 s1" "[]"] u q1' e
  obtain s' as bs where f: "flushFirstCallback ?exec oneQueued = Some (Normal (), s')"
    and ab: "[] = as @ bs" and q': "queue s' (as @ allocated (callbackEntry 0 s1) # bs)"
    and n: "callback (heap s' (allocated (callbackEntry 0 s1))) = 9"
      "priorityLevel (heap s' (allocated (callbackEntry 0 s1))) = priorityLevel (heap oneQueued 0)"
      "expirationTime (heap s' (allocated (callbackEntry 0 s1))) = expirationTime (heap oneQueued 0)"
    by blast
  have 2: "\<exists>s'. flushFirstCallback ?exec oneQueued = Some (Normal (), s') \<and>
      queue s' [1] \<and> callback (heap s' 1) = 9 \<and>
      priorityLevel (heap s' 1) = priorityLevel (heap oneQueued 0) \<and>
      expirationTime (heap s' 1) = expirationTime (heap oneQueued 0)"
    using f ab q' n unfolding a1' by auto
  from T4 have 3: "\<exists>s'. unstable_cancelCallback 0 oneQueued = Some s' \<and> queue s' []"
    by auto
  from queue_oneQueued 1 2 3 show ?thesis by blast
qed

text \<open>
  Claim C7. \<^verbatim>\<open>unstable_cancelCallback\<close> on a queued node takes the node out of the queue,
  which stays a sorted queue, and sets the node's \<^verbatim>\<open>next\<close> and \<^verbatim>\<open>previous\<close> to null. A
  callback is only ever run for the node that \<^verbatim>\<open>flushFirstCallback\<close> takes from the
  head of the list, and this is never the cancelled node: it is not in the list and,
  being an object that exists already, it is not a node created later. A second call
  on the same node changes nothing and returns; so does a call on any node whose
  \<^verbatim>\<open>next\<close> is null, such as a node that was never queued, and a call on a node that
  has been taken from the head of the list to run.
\<close>

theorem cancelCallback_idempotent:
  assumes "queue s xs"
  shows
    "(\<forall>x\<in>set xs. \<exists>s'. unstable_cancelCallback x s = Some s' \<and>
        queue s' (remove1 x xs) \<and> x \<notin> set (remove1 x xs) \<and> x < allocated s' \<and>
        nxt (heap s' x) = None \<and> previous (heap s' x) = None \<and>
        (\<forall>y t. unlinkFirst s' = Some (y, t) \<longrightarrow> y \<noteq> x) \<and>
        unstable_cancelCallback x s' = Some s') \<and>
     (\<forall>x. nxt (heap s x) = None \<longrightarrow> unstable_cancelCallback x s = Some s) \<and>
     (\<forall>x xs' s1. xs = x # xs' \<and> unlinkFirst s = Some (x, s1) \<longrightarrow>
        unstable_cancelCallback x s1 = Some s1)"
proof (intro conjI ballI allI impI)
  fix x assume x: "x \<in> set xs"
  from cancel_queue [OF assms x] obtain s' where
    c: "unstable_cancelCallback x s = Some s'" and q': "queue s' (remove1 x xs)"
    and a: "allocated s' = allocated s"
    and l: "nxt (heap s' x) = None" "previous (heap s' x) = None"
    by blast
  have nx: "x \<notin> set (remove1 x xs)"
    using queue_distinct [OF assms] by simp
  have al: "x < allocated s'"
    using queue_allocated [OF assms x] a by simp
  have u: "\<forall>y t. unlinkFirst s' = Some (y, t) \<longrightarrow> y \<noteq> x"
  proof (intro allI impI)
    fix y t assume "unlinkFirst s' = Some (y, t)"
    then have "firstCallbackNode s' = Some y" by (rule unlinkFirst_first)
    with queue_first [OF q'] have "y \<in> set (remove1 x xs)"
      by (cases "remove1 x xs") auto
    with nx show "y \<noteq> x" by blast
  qed
  have i: "unstable_cancelCallback x s' = Some s'"
    using l(1) by (rule cancel_unlinked)
  show "\<exists>s'. unstable_cancelCallback x s = Some s' \<and>
        queue s' (remove1 x xs) \<and> x \<notin> set (remove1 x xs) \<and> x < allocated s' \<and>
        nxt (heap s' x) = None \<and> previous (heap s' x) = None \<and>
        (\<forall>y t. unlinkFirst s' = Some (y, t) \<longrightarrow> y \<noteq> x) \<and>
        unstable_cancelCallback x s' = Some s'"
    using c q' nx al l u i by blast
next
  fix x assume "nxt (heap s x) = None"
  then show "unstable_cancelCallback x s = Some s" by (rule cancel_unlinked)
next
  fix x xs' s1 assume h: "xs = x # xs' \<and> unlinkFirst s = Some (x, s1)"
  with unlinkFirst_queue [of s x xs'] assms have "nxt (heap s1 x) = None" by auto
  then show "unstable_cancelCallback x s1 = Some s1" by (rule cancel_unlinked)
qed

theorem cancelCallback_idempotent_witness:
  "queue oneQueued [0] \<and>
   (\<exists>s'. unstable_cancelCallback 0 oneQueued = Some s' \<and> queue s' [] \<and>
      nxt (heap s' 0) = None \<and> previous (heap s' 0) = None \<and>
      unstable_cancelCallback 0 s' = Some s') \<and>
   (\<exists>s1. unlinkFirst oneQueued = Some (0, s1) \<and> unstable_cancelCallback 0 s1 = Some s1)"
proof -
  note T = cancelCallback_idempotent [OF queue_oneQueued]
  note T1 = T [THEN conjunct1] and T3 = T [THEN conjunct2, THEN conjunct2]
  from T1 have 1: "\<exists>s'. unstable_cancelCallback 0 oneQueued = Some s' \<and> queue s' [] \<and>
      nxt (heap s' 0) = None \<and> previous (heap s' 0) = None \<and>
      unstable_cancelCallback 0 s' = Some s'"
    by auto
  from unlinkFirst_queue [OF queue_oneQueued]
  obtain s1 where u: "unlinkFirst oneQueued = Some (0, s1)" by blast
  from T3 [rule_format, of 0 "[]" s1] u
  have "unstable_cancelCallback 0 s1 = Some s1" by simp
  with u have 2: "\<exists>s1. unlinkFirst oneQueued = Some (0, s1) \<and>
      unstable_cancelCallback 0 s1 = Some s1" by blast
  from queue_oneQueued 1 2 show ?thesis by blast
qed

text \<open>
  Claim C9. When \<^verbatim>\<open>flushFirstCallback\<close> calls the callback of the first node, the node has
  been taken out of the list and its links are null, and the rest is a sorted queue.
  When the callback throws, \<^verbatim>\<open>flushFirstCallback\<close> throws, and the state it leaves is
  the state the callback left with \<^verbatim>\<open>currentPriorityLevel\<close> and
  \<^verbatim>\<open>currentExpirationTime\<close> set back to their values before the call.
\<close>

theorem failing_callback_restores_state:
  assumes "queue s (x # xs)"
  shows "\<exists>s1. unlinkFirst s = Some (x, s1) \<and> queue (callbackEntry x s1) xs \<and>
     nxt (heap (callbackEntry x s1) x) = None \<and>
     previous (heap (callbackEntry x s1) x) = None \<and>
     (\<forall>exec t. exec (callback (heap s x)) (callbackEntry x s1) = Some (Thrown, t) \<longrightarrow>
        flushFirstCallback exec s =
          Some (Thrown, t\<lparr>currentPriorityLevel := currentPriorityLevel s,
                          currentExpirationTime := currentExpirationTime s\<rparr>))"
proof -
  from unlinkFirst_queue [OF assms] obtain s1 where
    u: "unlinkFirst s = Some (x, s1)" and q1: "queue s1 xs" and oq: "onlyQueue s s1"
    and sd: "sameData (heap s) (heap s1)"
    and l: "nxt (heap s1 x) = None" "previous (heap s1 x) = None"
    by blast
  have q1': "queue (callbackEntry x s1) xs"
    using q1 queue_frame [of "callbackEntry x s1" s1 xs] by simp
  have cur: "currentPriorityLevel s1 = currentPriorityLevel s"
    "currentExpirationTime s1 = currentExpirationTime s"
    using oq by (simp_all add: onlyQueue_def)
  have "flushFirstCallback exec s =
          Some (Thrown, t\<lparr>currentPriorityLevel := currentPriorityLevel s,
                          currentExpirationTime := currentExpirationTime s\<rparr>)"
    if "exec (callback (heap s x)) (callbackEntry x s1) = Some (Thrown, t)" for exec t
  proof -
    from that have "exec (callback (heap s1 x)) (callbackEntry x s1) = Some (Thrown, t)"
      using sameData_D(1) [OF sd] by simp
    from flushFirstCallback_unfold [of s x s1 exec Thrown t, OF u this]
    show ?thesis by (simp add: cur)
  qed
  with u q1' l show ?thesis by auto
qed

theorem failing_callback_restores_state_witness:
  "queue oneQueued [0] \<and>
   (\<exists>s'. flushFirstCallback (\<lambda>c s. Some (Thrown, s)) oneQueued = Some (Thrown, s') \<and>
      queue s' [] \<and> nxt (heap s' 0) = None \<and> previous (heap s' 0) = None \<and>
      currentPriorityLevel s' = currentPriorityLevel oneQueued \<and>
      currentExpirationTime s' = currentExpirationTime oneQueued)"
proof -
  let ?exec = "\<lambda>c s. Some (Thrown :: nat option completion, s::sched)"
  from failing_callback_restores_state [OF queue_oneQueued]
  obtain s1 where u: "unlinkFirst oneQueued = Some (0, s1)"
    and q: "queue (callbackEntry 0 s1) []"
    and l: "nxt (heap (callbackEntry 0 s1) 0) = None"
      "previous (heap (callbackEntry 0 s1) 0) = None"
    and f: "\<forall>exec t. exec (callback (heap oneQueued 0)) (callbackEntry 0 s1) = Some (Thrown, t) \<longrightarrow>
        flushFirstCallback exec oneQueued =
          Some (Thrown, t\<lparr>currentPriorityLevel := currentPriorityLevel oneQueued,
                          currentExpirationTime := currentExpirationTime oneQueued\<rparr>)"
    by blast
  let ?s' = "(callbackEntry 0 s1)\<lparr>currentPriorityLevel := currentPriorityLevel oneQueued,
                          currentExpirationTime := currentExpirationTime oneQueued\<rparr>"
  from f [rule_format, of ?exec "callbackEntry 0 s1"]
  have 1: "flushFirstCallback ?exec oneQueued = Some (Thrown, ?s')" by simp
  have 2: "queue ?s' []"
    using q queue_frame [of ?s' "callbackEntry 0 s1" "[]"] by simp
  have "flushFirstCallback ?exec oneQueued = Some (Thrown, ?s') \<and>
      queue ?s' [] \<and> nxt (heap ?s' 0) = None \<and> previous (heap ?s' 0) = None \<and>
      currentPriorityLevel ?s' = currentPriorityLevel oneQueued \<and>
      currentExpirationTime ?s' = currentExpirationTime oneQueued"
    using 1 2 l by simp
  then have "\<exists>s'. flushFirstCallback ?exec oneQueued = Some (Thrown, s') \<and>
      queue s' [] \<and> nxt (heap s' 0) = None \<and> previous (heap s' 0) = None \<and>
      currentPriorityLevel s' = currentPriorityLevel oneQueued \<and>
      currentExpirationTime s' = currentExpirationTime oneQueued"
    by (rule exI)
  with queue_oneQueued show ?thesis by (rule conjI)
qed

text \<open>
  Claim C10. While \<^verbatim>\<open>currentEventStartTime\<close> is not \<open>-1\<close>, \<^verbatim>\<open>unstable_scheduleCallback\<close>
  takes it as the start time and does not read the clock: the expiration time of the
  new node is the event start time plus the timeout. So two calls in two states of the
  same event (equal event start time, equal priority level, the same timeout option)
  give equal expiration times; and a call leaves the event start time and the priority
  level as they are, so that the state after one call is such a state for the next.
\<close>

theorem event_start_time_shared:
  assumes "ring s xs" and "ring t ys"
    and "currentEventStartTime s \<noteq> - 1"
    and "currentEventStartTime t = currentEventStartTime s"
    and "currentPriorityLevel t = currentPriorityLevel s"
  shows "\<exists>s' t'. unstable_scheduleCallback cb1 opts s = Some (allocated s, s') \<and>
     unstable_scheduleCallback cb2 opts t = Some (allocated t, t') \<and>
     expirationTime (heap s' (allocated s)) = expirationTime (heap t' (allocated t)) \<and>
     expirationTime (heap s' (allocated s)) =
       currentEventStartTime s +
         (case opts of Some timeout \<Rightarrow> timeout
          | None \<Rightarrow> priorityTimeout (currentPriorityLevel s)) \<and>
     currentEventStartTime s' = currentEventStartTime s \<and>
     currentPriorityLevel s' = currentPriorityLevel s \<and>
     clockReads s' = clockReads s"
proof -
  from schedule_ring [OF assms(1), of cb1 opts]
  obtain s' where 1: "unstable_scheduleCallback cb1 opts s = Some (allocated s, s')"
    and oq: "onlyQueue (snd (scheduleStartTime s)) s'"
    and e1: "expirationTime (heap s' (allocated s)) = scheduledExpiration opts s"
    by blast
  from schedule_ring [OF assms(2), of cb2 opts]
  obtain t' where 2: "unstable_scheduleCallback cb2 opts t = Some (allocated t, t')"
    and e2: "expirationTime (heap t' (allocated t)) = scheduledExpiration opts t"
    by blast
  have st: "scheduleStartTime s = (currentEventStartTime s, s)"
    "scheduleStartTime t = (currentEventStartTime s, t)"
    using assms(3,4) scheduleStartTime_event [of s] scheduleStartTime_event [of t] by simp_all
  have "onlyQueue s s'" using oq st by simp
  then have fr: "currentEventStartTime s' = currentEventStartTime s"
    "currentPriorityLevel s' = currentPriorityLevel s" "clockReads s' = clockReads s"
    by (simp_all add: onlyQueue_def)
  have "scheduledExpiration opts t = scheduledExpiration opts s"
    using st assms(5) by (cases opts) (simp_all add: scheduledExpiration_def)
  moreover have "scheduledExpiration opts s = currentEventStartTime s +
         (case opts of Some timeout \<Rightarrow> timeout
          | None \<Rightarrow> priorityTimeout (currentPriorityLevel s))"
    using st by (simp add: scheduledExpiration_def)
  ultimately show ?thesis
    using 1 2 e1 e2 fr by simp
qed

theorem event_start_time_shared_witness:
  "ring (eventEntry UserBlockingPriority quietHost) [] \<and>
   currentEventStartTime (eventEntry UserBlockingPriority quietHost) = 0 \<and>
   (\<exists>s' t'. unstable_scheduleCallback 7 None (eventEntry UserBlockingPriority quietHost) =
        Some (0, s') \<and>
      unstable_scheduleCallback 8 None s' = Some (1, t') \<and>
      expirationTime (heap s' 0) = 250 \<and> expirationTime (heap t' 1) = 250)"
proof -
  let ?E = "eventEntry UserBlockingPriority quietHost"
  have r: "ring ?E []"
    using queue_quietHost by (simp add: ring_eventEntry queue_def)
  have ev: "currentEventStartTime ?E = 0" by simp
  from schedule_ring [OF r, of 7 None]
  obtain s' where "unstable_scheduleCallback 7 None ?E = Some (allocated ?E, s')"
    "ring s' (takeWhile (\<lambda>y. expirationTime (heap ?E y) \<le> scheduledExpiration None ?E) [] @
       allocated ?E # dropWhile (\<lambda>y. expirationTime (heap ?E y) \<le> scheduledExpiration None ?E) [])"
    "allocated s' = Suc (allocated ?E)"
    "onlyQueue (snd (scheduleStartTime ?E)) s'"
    by blast
  then have 1: "unstable_scheduleCallback 7 None ?E = Some (0, s')"
    and r': "ring s' [0]" and a': "allocated s' = 1"
    and oq: "onlyQueue (snd (scheduleStartTime ?E)) s'"
    by simp_all
  have "onlyQueue ?E s'" using oq ev scheduleStartTime_event [of ?E] by simp
  then have same: "currentEventStartTime s' = currentEventStartTime ?E"
    "currentPriorityLevel s' = currentPriorityLevel ?E"
    by (simp_all add: onlyQueue_def)
  have ne: "currentEventStartTime ?E \<noteq> - 1" by simp
  from event_start_time_shared [OF r r' ne same, of 7 None 8]
  obtain s'' t' where 2: "unstable_scheduleCallback 7 None ?E = Some (allocated ?E, s'')"
    and 3: "unstable_scheduleCallback 8 None s' = Some (allocated s', t')"
    and 4: "expirationTime (heap s'' (allocated ?E)) = expirationTime (heap t' (allocated s'))"
    and 5: "expirationTime (heap s'' (allocated ?E)) =
       currentEventStartTime ?E +
         (case None of Some timeout \<Rightarrow> timeout
          | None \<Rightarrow> priorityTimeout (currentPriorityLevel ?E))"
    by blast
  have s'': "s'' = s'" using 1 2 by simp
  have p: "priorityTimeout UserBlockingPriority = 250"
    by (simp add: priorityTimeout_table UserBlockingPriority_def ImmediatePriority_def)
  have "unstable_scheduleCallback 7 None ?E = Some (0, s') \<and>
      unstable_scheduleCallback 8 None s' = Some (1, t') \<and>
      expirationTime (heap s' 0) = 250 \<and> expirationTime (heap t' 1) = 250"
    using 1 3 4 5 a' s'' p by simp
  then have "\<exists>s' t'. unstable_scheduleCallback 7 None ?E = Some (0, s') \<and>
      unstable_scheduleCallback 8 None s' = Some (1, t') \<and>
      expirationTime (heap s' 0) = 250 \<and> expirationTime (heap t' 1) = 250"
    by blast
  with r ev show ?thesis by blast
qed

text \<open>
  Claim C6. \<^verbatim>\<open>unstable_shouldYield\<close> returns true exactly when \<^verbatim>\<open>currentDidTimeout\<close>
  is not set and either the list is not empty and its first node expires strictly
  before \<^verbatim>\<open>currentExpirationTime\<close>, or the host says to yield. In a sorted queue the
  first node is the one that expires earliest.
\<close>

theorem shouldYield_value:
  "fst (unstable_shouldYield s) =
     (\<not> currentDidTimeout s \<and>
      ((\<exists>f. firstCallbackNode s = Some f \<and>
            expirationTime (heap s f) < currentExpirationTime s) \<or>
       fst (shouldYieldToHost s))) \<and>
   (\<forall>xs. queue s xs \<longrightarrow>
      firstCallbackNode s = (case xs of [] \<Rightarrow> None | x # _ \<Rightarrow> Some x) \<and>
      (\<forall>x\<in>set xs. expirationTime (heap s (hd xs)) \<le> expirationTime (heap s x)))"
proof (intro conjI allI impI ballI)
  show "fst (unstable_shouldYield s) =
     (\<not> currentDidTimeout s \<and>
      ((\<exists>f. firstCallbackNode s = Some f \<and>
            expirationTime (heap s f) < currentExpirationTime s) \<or>
       fst (shouldYieldToHost s)))"
    by (cases "firstCallbackNode s") (simp_all add: unstable_shouldYield_def)
next
  fix xs assume "queue s xs"
  then show "firstCallbackNode s = (case xs of [] \<Rightarrow> None | x # _ \<Rightarrow> Some x)"
    by (rule queue_first)
next
  fix xs x assume "queue s xs" "x \<in> set xs"
  then show "expirationTime (heap s (hd xs)) \<le> expirationTime (heap s x)"
    by (rule queue_hd_least)
qed

theorem shouldYield_value_witness:
  "queue (oneQueued\<lparr>currentExpirationTime := 6000\<rparr>) [0] \<and>
   fst (unstable_shouldYield (oneQueued\<lparr>currentExpirationTime := 6000\<rparr>)) = True \<and>
   fst (unstable_shouldYield oneQueued) = False \<and>
   fst (unstable_shouldYield (oneQueued\<lparr>currentExpirationTime := 6000,
      currentDidTimeout := True\<rparr>)) = False"
proof -
  let ?s = "oneQueued\<lparr>currentExpirationTime := 6000\<rparr>"
  have q: "queue ?s [0]"
    using queue_oneQueued queue_frame [of ?s oneQueued "[0]"] by simp
  have f: "firstCallbackNode oneQueued = Some 0"
    using queue_first [OF queue_oneQueued] by simp
  have fld: "currentDidTimeout oneQueued = False" "currentExpirationTime oneQueued = - 1"
    "yieldAnswers oneQueued (yieldChecks oneQueued) = False"
    using oneQueued_onlyQueue
    by (simp_all add: onlyQueue_def scheduleStartTime_def getCurrentTime_def)
  have 1: "fst (unstable_shouldYield ?s) = True"
    using shouldYield_value [of ?s, THEN conjunct1] f fld oneQueued_expiration by simp
  have 2: "fst (unstable_shouldYield oneQueued) = False"
    using shouldYield_value [of oneQueued, THEN conjunct1] f fld oneQueued_expiration
    by (simp add: shouldYieldToHost_def)
  have 3: "fst (unstable_shouldYield (oneQueued\<lparr>currentExpirationTime := 6000,
      currentDidTimeout := True\<rparr>)) = False"
    using shouldYield_value [of "oneQueued\<lparr>currentExpirationTime := 6000,
      currentDidTimeout := True\<rparr>", THEN conjunct1] by simp
  from q 1 2 3 show ?thesis by blast
qed

text \<open>
  Claim C3, as stated, fails for \<^verbatim>\<open>unstable_scheduleCallback\<close>: it does no bucketing.
  With no event active and a clock that reads 0 and then 50, two calls at Normal
  priority give the expiration times 5000 and 5050, although both times lie in one
  window of 250 ms.
\<close>

theorem twoCalls_counterexample: "twoCalls tickingHost = Some (5000, 5050)"
  by code_simp

text \<open>
  Claim C3, amended. The buckets are those of \<^verbatim>\<open>computeExpirationBucket\<close>, the
  expiration arithmetic of the reconciler. For a positive bucket size and a combined
  value (anchor distance plus offset, in units) that is not negative and whose
  quotient by the bucket size fits 31 bits: the result is the offset constant minus
  the next bucket boundary strictly above the combined value, that is the number of
  whole buckets plus one, times the bucket size (a value on a boundary moves up by a
  whole bucket); two requests with the same offset and bucket size get the same
  result exactly when their combined values lie in the same window; and the results
  are ordered as the anchors are.
\<close>

theorem expiration_buckets:
  assumes b: "0 < b"
    and r1: "0 \<le> (MAGIC_NUMBER_OFFSET - c1 + e / UNIT_SIZE) / (b / UNIT_SIZE)"
      "(MAGIC_NUMBER_OFFSET - c1 + e / UNIT_SIZE) / (b / UNIT_SIZE) < 2 ^ 31"
    and r2: "0 \<le> (MAGIC_NUMBER_OFFSET - c2 + e / UNIT_SIZE) / (b / UNIT_SIZE)"
      "(MAGIC_NUMBER_OFFSET - c2 + e / UNIT_SIZE) / (b / UNIT_SIZE) < 2 ^ 31"
  shows "computeExpirationBucket c1 e b =
       MAGIC_NUMBER_OFFSET - (of_int (expirationWindow c1 e b) + 1) * (b / UNIT_SIZE) \<and>
     (MAGIC_NUMBER_OFFSET - c1 + e / UNIT_SIZE <
        MAGIC_NUMBER_OFFSET - computeExpirationBucket c1 e b \<and>
      MAGIC_NUMBER_OFFSET - computeExpirationBucket c1 e b \<le>
        MAGIC_NUMBER_OFFSET - c1 + e / UNIT_SIZE + b / UNIT_SIZE) \<and>
     (computeExpirationBucket c1 e b = computeExpirationBucket c2 e b) =
       (expirationWindow c1 e b = expirationWindow c2 e b) \<and>
     (c1 \<le> c2 \<longrightarrow> computeExpirationBucket c1 e b \<le> computeExpirationBucket c2 e b)"
proof -
  let ?u = "b / UNIT_SIZE"
  let ?x = "MAGIC_NUMBER_OFFSET - c1 + e / UNIT_SIZE"
  have u: "0 < ?u" using b by (simp add: UNIT_SIZE_def)
  note e1 = computeExpirationBucket_window [OF r1]
  note e2 = computeExpirationBucket_window [OF r2]
  have w: "expirationWindow c1 e b = \<lfloor>?x / ?u\<rfloor>" by (simp add: expirationWindow_def)
  have lo: "of_int \<lfloor>?x / ?u\<rfloor> * ?u \<le> ?x"
    and hi: "?x < (of_int \<lfloor>?x / ?u\<rfloor> + 1) * ?u"
    using floor_bucket_bounds [OF u] by blast+
  have 2: "?x < MAGIC_NUMBER_OFFSET - computeExpirationBucket c1 e b"
    using hi by (simp add: e1 w)
  have 3: "MAGIC_NUMBER_OFFSET - computeExpirationBucket c1 e b \<le> ?x + ?u"
    using lo by (simp add: e1 w algebra_simps)
  have 4: "(computeExpirationBucket c1 e b = computeExpirationBucket c2 e b) =
       (expirationWindow c1 e b = expirationWindow c2 e b)"
    using b by (simp add: e1 e2 UNIT_SIZE_def)
  have 5: "computeExpirationBucket c1 e b \<le> computeExpirationBucket c2 e b" if "c1 \<le> c2"
  proof -
    have "expirationWindow c2 e b \<le> expirationWindow c1 e b"
      using b that by (rule window_mono)
    then have "(of_int (expirationWindow c2 e b) + 1) * ?u \<le>
        (of_int (expirationWindow c1 e b) + 1) * ?u"
      using u by (intro mult_right_mono) simp_all
    then show ?thesis by (simp add: e1 e2)
  qed
  from e1 2 3 4 5 show ?thesis by blast
qed

theorem expiration_buckets_witness:
  "computeAsyncExpiration (msToExpirationTime 0) = 1073741822 - 525 \<and>
   computeAsyncExpiration (msToExpirationTime 50) = 1073741822 - 525 \<and>
   computeAsyncExpiration (msToExpirationTime 250) = 1073741822 - 550 \<and>
   expirationWindow (msToExpirationTime 0) 5000 250 = 20 \<and>
   expirationWindow (msToExpirationTime 50) 5000 250 = 20 \<and>
   expirationWindow (msToExpirationTime 250) 5000 250 = 21 \<and>
   computeExpirationBucket 1073741322 5000 250 = 1073741822 - 1025"
proof -
  have w: "expirationWindow (msToExpirationTime 0) 5000 250 = 20"
    "expirationWindow (msToExpirationTime 50) 5000 250 = 20"
    "expirationWindow (msToExpirationTime 250) 5000 250 = 21"
    "expirationWindow 1073741322 5000 250 = 40"
    by (simp_all add: expirationWindow_def msToExpirationTime_values magic_value UNIT_SIZE_def
        floor_eq_iff)
  have b: "(0::rat) < 250" by simp
  have r: "0 \<le> (MAGIC_NUMBER_OFFSET - msToExpirationTime 0 + 5000 / UNIT_SIZE) / (250 / UNIT_SIZE)"
      "(MAGIC_NUMBER_OFFSET - msToExpirationTime 0 + 5000 / UNIT_SIZE) / (250 / UNIT_SIZE) < 2 ^ 31"
      "0 \<le> (MAGIC_NUMBER_OFFSET - msToExpirationTime 50 + 5000 / UNIT_SIZE) / (250 / UNIT_SIZE)"
      "(MAGIC_NUMBER_OFFSET - msToExpirationTime 50 + 5000 / UNIT_SIZE) / (250 / UNIT_SIZE) < 2 ^ 31"
      "0 \<le> (MAGIC_NUMBER_OFFSET - msToExpirationTime 250 + 5000 / UNIT_SIZE) / (250 / UNIT_SIZE)"
      "(MAGIC_NUMBER_OFFSET - msToExpirationTime 250 + 5000 / UNIT_SIZE) / (250 / UNIT_SIZE) < 2 ^ 31"
      "0 \<le> (MAGIC_NUMBER_OFFSET - 1073741322 + 5000 / UNIT_SIZE) / (250 / UNIT_SIZE)"
      "(MAGIC_NUMBER_OFFSET - 1073741322 + 5000 / UNIT_SIZE) / (250 / UNIT_SIZE) < 2 ^ 31"
    by (simp_all add: msToExpirationTime_values magic_value UNIT_SIZE_def)
  note A = expiration_buckets [OF b r(1,2) r(3,4), THEN conjunct1]
  note B = expiration_buckets [OF b r(3,4) r(5,6), THEN conjunct1]
  note C = expiration_buckets [OF b r(5,6) r(1,2), THEN conjunct1]
  note D = expiration_buckets [OF b r(7,8) r(1,2), THEN conjunct1]
  have "computeAsyncExpiration (msToExpirationTime 0) = 1073741822 - 525"
    "computeAsyncExpiration (msToExpirationTime 50) = 1073741822 - 525"
    "computeAsyncExpiration (msToExpirationTime 250) = 1073741822 - 550"
    "computeExpirationBucket 1073741322 5000 250 = 1073741822 - 1025"
    using A B C D
    by (simp_all add: computeAsyncExpiration_def LOW_PRIORITY_EXPIRATION_def
        LOW_PRIORITY_BATCH_SIZE_def w magic_value UNIT_SIZE_def)
  with w show ?thesis by simp
qed

text \<open>
  Claim C8. For a valid priority level \<open>P\<close>, the state in which
  \<^verbatim>\<open>unstable_runWithPriority(P, fn)\<close> starts \<^verbatim>\<open>fn\<close> has
  \<^verbatim>\<open>unstable_getCurrentPriorityLevel() = P\<close>. Whenever \<^verbatim>\<open>unstable_runWithPriority\<close>
  returns or throws, \<^verbatim>\<open>fn\<close> has been run from that state, has returned or thrown, and
  the ambient priority level is what it was before the call, whatever \<^verbatim>\<open>fn\<close> and
  the Immediate callbacks that are flushed at the end have done.
\<close>

theorem runWithPriority_restores:
  "(validPriority P \<longrightarrow> unstable_getCurrentPriorityLevel (eventEntry P s) = P) \<and>
   (\<forall>r s'. unstable_runWithPriority exec P handler s = Some (r, s') \<longrightarrow>
      (\<exists>r0 t. handler (eventEntry (if validPriority P then P else NormalPriority) s) =
                 Some (r0, t) \<and>
         (r = r0 \<or> r = Thrown) \<and>
         unstable_getCurrentPriorityLevel s' = unstable_getCurrentPriorityLevel s))"
proof (intro conjI allI impI)
  show "unstable_getCurrentPriorityLevel (eventEntry P s) = P"
    by (simp add: unstable_getCurrentPriorityLevel_def)
next
  fix r s'
  let ?p = "if validPriority P then P else NormalPriority"
  assume run: "unstable_runWithPriority exec P handler s = Some (r, s')"
  then obtain r0 t where h: "handler (eventEntry ?p s) = Some (r0, t)"
    by (auto simp: unstable_runWithPriority_def Let_def split: Option.bind_splits)
  with run obtain f where
    fl: "flushImmediateWork exec (t\<lparr>currentPriorityLevel := currentPriorityLevel s,
           currentEventStartTime := currentEventStartTime s\<rparr>) = Some (f, s')"
    and r: "r = afterFinally r0 f"
    by (auto simp: unstable_runWithPriority_def Let_def split: Option.bind_splits)
  have "currentPriorityLevel s' = currentPriorityLevel s"
    using flushImmediateWork_ambient(1) [OF fl] by simp
  moreover have "r = r0 \<or> r = Thrown"
    using r by (cases f) (simp_all add: afterFinally_def)
  ultimately show "\<exists>r0 t. handler (eventEntry ?p s) = Some (r0, t) \<and>
         (r = r0 \<or> r = Thrown) \<and>
         unstable_getCurrentPriorityLevel s' = unstable_getCurrentPriorityLevel s"
    using h by (auto simp: unstable_getCurrentPriorityLevel_def)
qed

theorem runWithPriority_restores_witness:
  "validPriority UserBlockingPriority \<and>
   (\<exists>s'. unstable_runWithPriority (\<lambda>c s. Some (Normal None, s)) UserBlockingPriority
        (\<lambda>t. Some (Normal (unstable_getCurrentPriorityLevel t), t)) quietHost =
        Some (Normal UserBlockingPriority, s') \<and>
      unstable_getCurrentPriorityLevel s' = NormalPriority) \<and>
   (\<exists>s'. unstable_runWithPriority (\<lambda>c s. Some (Normal None, s)) IdlePriority
        (\<lambda>t. Some (Thrown :: unit completion, t)) quietHost = Some (Thrown, s') \<and>
      unstable_getCurrentPriorityLevel s' = NormalPriority)"
proof -
  let ?exec = "\<lambda>c s. Some (Normal (None :: nat option), s::sched)"
  let ?obs = "\<lambda>t. Some (Normal (unstable_getCurrentPriorityLevel t), t)"
  let ?thr = "\<lambda>t. Some (Thrown :: unit completion, t::sched)"
  have v: "validPriority UserBlockingPriority" "validPriority IdlePriority"
    by (simp_all add: validPriority_def)
  have e: "firstCallbackNode quietHost = None"
    by (simp add: quietHost_def initialSched_def)
  have 1: "\<exists>s'. unstable_runWithPriority ?exec UserBlockingPriority ?obs quietHost =
      Some (Normal UserBlockingPriority, s')"
    using v e by (simp add: unstable_runWithPriority_def flushImmediateWork_empty
        afterFinally_def unstable_getCurrentPriorityLevel_def)
  have 2: "\<exists>s'. unstable_runWithPriority ?exec IdlePriority ?thr quietHost = Some (Thrown, s')"
    using v e by (simp add: unstable_runWithPriority_def flushImmediateWork_empty
        afterFinally_def)
  from 1 obtain s1 where s1: "unstable_runWithPriority ?exec UserBlockingPriority ?obs quietHost =
      Some (Normal UserBlockingPriority, s1)" by blast
  from 2 obtain s2 where s2: "unstable_runWithPriority ?exec IdlePriority ?thr quietHost =
      Some (Thrown, s2)" by blast
  from runWithPriority_restores [of UserBlockingPriority quietHost ?exec ?obs,
      THEN conjunct2, rule_format, OF s1]
  have p1: "unstable_getCurrentPriorityLevel s1 = NormalPriority"
    by (auto simp: unstable_getCurrentPriorityLevel_def)
  from runWithPriority_restores [of IdlePriority quietHost ?exec ?thr,
      THEN conjunct2, rule_format, OF s2]
  have p2: "unstable_getCurrentPriorityLevel s2 = NormalPriority"
    by (auto simp: unstable_getCurrentPriorityLevel_def)
  from v(1) s1 p1 s2 p2 show ?thesis by blast
qed

text \<open>
  Claim C5: every call of \<^verbatim>\<open>flushWork\<close> ends, on every exit path, by running all the
  Immediate items that remain in the queue, whatever the host says about yielding,
  before control returns. The source says the same of itself ("Keep flushing until
  there are no more immediate callbacks", "Before exiting, flush all the immediate
  work that was scheduled"), but \<^verbatim>\<open>flushImmediateWork\<close> looks at the priority of the
  first node only, and the code does not do what the claim says. Two UserBlocking items
  (expiration times 250 and 350) are overdue when an Immediate item is scheduled at
  the time 1000 (expiration time 999), so it is queued behind them.
  \<^verbatim>\<open>flushWork(false)\<close> with a host that asks to yield runs the first item and returns
  normally, not paused and with no event active; the Immediate item (node 2) has not
  been run and is still queued, behind node 1.
\<close>

theorem flushWork_leaves_immediate_item:
  "(case overdueQueue of
      None \<Rightarrow> None
    | Some s \<Rightarrow>
        map_option
          (\<lambda>(r, s'). (r, paused s, currentEventStartTime s', executed s', queue s' [1, 2],
             priorityLevel (heap s' 2) = ImmediatePriority))
          (flushWork idleExec False s)) =
   Some (Normal (), False, - 1, [0], True, True)"
  by code_simp




end
